theory Spec2Isabelle
  imports Complex_Main
begin

section \<open>ECG analysis: R-peak detection and heart-rate variability\<close>

text \<open>
  A shallow embedding of \<^verbatim>\<open>code/biosignal-processing/ecg_heartrate.py\<close>.
  Arrays are lists. Arithmetic is exact: a floating-point number is a real number or one
  of the three special values of IEEE arithmetic, so that a division by zero and the mean
  of an empty array are values, as they are for numpy (which warns and goes on). Rounding
  and the sign of zero are not modelled.
\<close>

subsection \<open>Errors\<close>

text \<open>
  \<open>ValueError\<close> is what numpy and scipy raise on an argument they refuse.
  \<open>InvalidBandError\<close> and \<open>InsufficientBeatsError\<close> are the names of the
  specification's error taxonomy.
\<close>

datatype error = InvalidBandError | InsufficientBeatsError | ValueError

subsection \<open>Floating-point values\<close>

datatype npfloat = Fin real | PInf | NInf | NaN

fun fneg :: "npfloat \<Rightarrow> npfloat" where
  "fneg (Fin a) = Fin (- a)"
| "fneg PInf = NInf"
| "fneg NInf = PInf"
| "fneg NaN = NaN"

fun fadd :: "npfloat \<Rightarrow> npfloat \<Rightarrow> npfloat" where
  "fadd (Fin a) (Fin b) = Fin (a + b)"
| "fadd NaN _ = NaN"
| "fadd _ NaN = NaN"
| "fadd PInf NInf = NaN"
| "fadd NInf PInf = NaN"
| "fadd PInf _ = PInf"
| "fadd _ PInf = PInf"
| "fadd NInf _ = NInf"
| "fadd _ NInf = NInf"

definition fsub :: "npfloat \<Rightarrow> npfloat \<Rightarrow> npfloat" where
  "fsub a b = fadd a (fneg b)"

text \<open>An infinity times a finite number: the sign of the product, and NaN at zero.\<close>

definition inf_times :: "bool \<Rightarrow> real \<Rightarrow> npfloat" where
  "inf_times pos b =
     (if b = 0 then NaN else if (0 < b) = pos then PInf else NInf)"

fun fmul :: "npfloat \<Rightarrow> npfloat \<Rightarrow> npfloat" where
  "fmul (Fin a) (Fin b) = Fin (a * b)"
| "fmul NaN _ = NaN"
| "fmul _ NaN = NaN"
| "fmul PInf (Fin b) = inf_times True b"
| "fmul NInf (Fin b) = inf_times False b"
| "fmul (Fin a) PInf = inf_times True a"
| "fmul (Fin a) NInf = inf_times False a"
| "fmul PInf PInf = PInf"
| "fmul NInf NInf = PInf"
| "fmul PInf NInf = NInf"
| "fmul NInf PInf = NInf"

text \<open>
  Division as numpy does it: a nonzero number over zero is an infinity, zero over zero
  is NaN, and nothing is raised.
\<close>

fun fdiv :: "npfloat \<Rightarrow> npfloat \<Rightarrow> npfloat" where
  "fdiv (Fin a) (Fin b) =
     (if b \<noteq> 0 then Fin (a / b)
      else if 0 < a then PInf else if a < 0 then NInf else NaN)"
| "fdiv NaN _ = NaN"
| "fdiv _ NaN = NaN"
| "fdiv (Fin a) PInf = Fin 0"
| "fdiv (Fin a) NInf = Fin 0"
| "fdiv PInf (Fin b) = (if 0 \<le> b then PInf else NInf)"
| "fdiv NInf (Fin b) = (if 0 \<le> b then NInf else PInf)"
| "fdiv PInf PInf = NaN"
| "fdiv PInf NInf = NaN"
| "fdiv NInf PInf = NaN"
| "fdiv NInf NInf = NaN"

fun fsqrt :: "npfloat \<Rightarrow> npfloat" where
  "fsqrt (Fin a) = (if 0 \<le> a then Fin (sqrt a) else NaN)"
| "fsqrt PInf = PInf"
| "fsqrt NInf = NaN"
| "fsqrt NaN = NaN"

fun fabs :: "npfloat \<Rightarrow> npfloat" where
  "fabs (Fin a) = Fin \<bar>a\<bar>"
| "fabs PInf = PInf"
| "fabs NInf = PInf"
| "fabs NaN = NaN"

text \<open>Comparisons: every comparison with NaN is false.\<close>

fun fless :: "npfloat \<Rightarrow> npfloat \<Rightarrow> bool" where
  "fless (Fin a) (Fin b) = (a < b)"
| "fless NaN _ = False"
| "fless _ NaN = False"
| "fless _ NInf = False"
| "fless PInf _ = False"
| "fless NInf _ = True"
| "fless _ PInf = True"

fun fle :: "npfloat \<Rightarrow> npfloat \<Rightarrow> bool" where
  "fle (Fin a) (Fin b) = (a \<le> b)"
| "fle NaN _ = False"
| "fle _ NaN = False"
| "fle NInf _ = True"
| "fle _ PInf = True"
| "fle _ NInf = False"
| "fle PInf _ = False"

subsection \<open>The numpy functions the analysis calls\<close>

text \<open>\<^verbatim>\<open>np.diff\<close>: \<open>out[i] = x[i+1] - x[i]\<close>, empty for fewer than two elements.\<close>

definition np_diff_int :: "int list \<Rightarrow> int list" where
  "np_diff_int xs = map2 (\<lambda>a b. b - a) xs (tl xs)"

definition np_diff :: "npfloat list \<Rightarrow> npfloat list" where
  "np_diff xs = map2 (\<lambda>a b. fsub b a) xs (tl xs)"

definition np_sum :: "npfloat list \<Rightarrow> npfloat" where
  "np_sum xs = foldr fadd xs (Fin 0)"

text \<open>\<^verbatim>\<open>np.mean\<close>: the sum over the count; NaN (zero over zero) on an empty array.\<close>

definition np_mean :: "npfloat list \<Rightarrow> npfloat" where
  "np_mean xs = fdiv (np_sum xs) (Fin (real (length xs)))"

text \<open>\<^verbatim>\<open>np.std\<close>: the population standard deviation.\<close>

definition np_std :: "npfloat list \<Rightarrow> npfloat" where
  "np_std xs =
     (let arrmean = np_mean xs;
          x = map (\<lambda>v. fsub v arrmean) xs
      in fsqrt (np_mean (map (\<lambda>v. fmul v v) x)))"

text \<open>
  \<^verbatim>\<open>np.trapz(y, x)\<close> on the points \<open>(x, y)\<close>:
  \<open>sum(diff(x) * (y[1:] + y[:-1]) / 2.0)\<close>.
\<close>

definition np_trapz :: "(npfloat \<times> npfloat) list \<Rightarrow> npfloat" where
  "np_trapz pts =
     np_sum (map2 (\<lambda>(x0, y0) (x1, y1). fdiv (fmul (fsub x1 x0) (fadd y1 y0)) (Fin 2))
               pts (tl pts))"

subsection \<open>Heart rate\<close>

text \<open>
  \<^verbatim>\<open>compute_heart_rate(r_peaks, fs)\<close>. The function has no \<^verbatim>\<open>raise\<close> and
  calls nothing that raises on an array of integers: it always returns.
\<close>

definition compute_heart_rate :: "int list \<Rightarrow> real \<Rightarrow> error + npfloat list" where
  "compute_heart_rate r_peaks fs =
     (let rr_intervals = map (\<lambda>d. fdiv (Fin (real_of_int d)) (Fin fs)) (np_diff_int r_peaks);
          hr = map (\<lambda>rr. fdiv (Fin 60) rr) rr_intervals
      in Inr hr)"

subsection \<open>Heart-rate variability\<close>

text \<open>
  \<^verbatim>\<open>scipy.signal.welch(x, fs, nperseg)\<close> is a parameter of the model: a function of
  the interval series, the sampling rate and the segment length that fails or returns
  the frequencies with their spectral densities, one pair for each frequency bin.
\<close>

type_synonym welch_fn = "npfloat list \<Rightarrow> npfloat \<Rightarrow> nat \<Rightarrow> error + (npfloat \<times> npfloat) list"

text \<open>The bins of a band: \<^verbatim>\<open>np.logical_and(freqs >= lo, freqs <= hi)\<close> as a mask.\<close>

definition band :: "real \<Rightarrow> real \<Rightarrow> (npfloat \<times> npfloat) list \<Rightarrow> (npfloat \<times> npfloat) list" where
  "band lo hi spectrum = filter (\<lambda>(f, p). fle (Fin lo) f \<and> fle f (Fin hi)) spectrum"

definition compute_hrv_metrics ::
  "welch_fn \<Rightarrow> int list \<Rightarrow> real \<Rightarrow> error + (string \<rightharpoonup> npfloat)" where
  "compute_hrv_metrics welch r_peaks fs =
     (let rr_intervals =
            map (\<lambda>d. fmul (fdiv (Fin (real_of_int d)) (Fin fs)) (Fin 1000)) (np_diff_int r_peaks);
          hrv = Map.empty;
          mean_rr = np_mean rr_intervals;
          hrv = hrv(''mean_rr'' \<mapsto> mean_rr);
          hrv = hrv(''std_rr'' \<mapsto> np_std rr_intervals);
          hrv = hrv(''rmssd'' \<mapsto> fsqrt (np_mean (map (\<lambda>v. fmul v v) (np_diff rr_intervals))));
          hrv = hrv(''sdsd'' \<mapsto> np_std (np_diff rr_intervals));
          nn50 = Fin (real (length (filter (\<lambda>v. fless (Fin 50) (fabs v)) (np_diff rr_intervals))));
          hrv = hrv(''nn50'' \<mapsto> nn50);
          hrv = hrv(''pnn50'' \<mapsto> fmul (fdiv nn50 (Fin (real (length rr_intervals)))) (Fin 100))
      in if length rr_intervals > 10 then
           (case welch rr_intervals (fdiv (Fin 1000) mean_rr) (min 256 (length rr_intervals)) of
              Inl e \<Rightarrow> Inl e
            | Inr spectrum \<Rightarrow>
                (let lf_power = np_trapz (band 0.04 0.15 spectrum);
                     hrv = hrv(''lf_power'' \<mapsto> lf_power);
                     hf_power = np_trapz (band 0.15 0.4 spectrum);
                     hrv = hrv(''hf_power'' \<mapsto> hf_power);
                     hrv = hrv(''lf_hf_ratio'' \<mapsto>
                             (if fless (Fin 0) hf_power then fdiv lf_power hf_power else Fin 0))
                 in Inr hrv))
         else Inr hrv)"

subsection \<open>The filter\<close>

text \<open>
  Python's \<^verbatim>\<open>int\<close> on a floating-point number truncates towards zero.
\<close>

definition py_int :: "real \<Rightarrow> int" where
  "py_int x = (if 0 \<le> x then \<lfloor>x\<rfloor> else \<lceil>x\<rceil>)"

text \<open>
  A filter design stands for the coefficient vectors \<open>(b, a)\<close>: they are derived once
  from the order, the band and the sampling rate, which is all the model keeps of them.
\<close>

type_synonym design = "nat \<times> real \<times> real \<times> real"

text \<open>
  Modelled from the spec: \<^verbatim>\<open>scipy.signal.butter\<close> (the design of the bandpass filter,
  with its check of the band) is called by the source and is not part of it. The
  specification, section 4.1: the band must satisfy
  \<open>0 < lowHz < highHz < samplingRate/2\<close>, and a band that violates this fails with
  \<open>InvalidBandError\<close>.
\<close>

definition butter :: "nat \<Rightarrow> real \<times> real \<Rightarrow> real \<Rightarrow> error + design" where
  "butter N Wn fs =
     (case Wn of (low, high) \<Rightarrow>
        if 0 < low \<and> low < high \<and> high < fs / 2 then Inr (N, low, high, fs)
        else Inl InvalidBandError)"

text \<open>
  \<^verbatim>\<open>scipy.signal.filtfilt(b, a, x)\<close>, the forward-backward filter itself, is a
  parameter of the model: a function of the design and the signal that fails (scipy
  refuses a signal no longer than its padding) or returns the filtered signal.
\<close>

type_synonym filtfilt_fn = "design \<Rightarrow> real list \<Rightarrow> error + real list"

subsection \<open>The nonlinear enhancer\<close>

definition np_diff_real :: "real list \<Rightarrow> real list" where
  "np_diff_real xs = map2 (\<lambda>a b. b - a) xs (tl xs)"

text \<open>
  \<^verbatim>\<open>np.convolve(a, v, mode='full')\<close>: the discrete convolution
  \<open>(a * v)[n] = \<Sum>m. a[m] * v[n - m]\<close>, of length \<open>len(a) + len(v) - 1\<close>.
\<close>

definition convolve_full :: "real list \<Rightarrow> real list \<Rightarrow> real list" where
  "convolve_full a v =
     map (\<lambda>n. \<Sum>m\<leftarrow>[0..<length a]. if m \<le> n \<and> n - m < length v then a ! m * v ! (n - m) else 0)
       [0..<length a + length v - 1]"

text \<open>
  \<^verbatim>\<open>mode='same'\<close>: the middle of the full convolution, of length
  \<open>max(len(a), len(v))\<close>, starting at \<open>(min(len(a), len(v)) - 1) // 2\<close>. numpy raises
  ValueError when either array is empty.
\<close>

definition np_convolve_same :: "real list \<Rightarrow> real list \<Rightarrow> error + real list" where
  "np_convolve_same a v =
     (if a = [] \<or> v = [] then Inl ValueError
      else Inr (take (max (length a) (length v))
                 (drop ((min (length a) (length v) - 1) div 2) (convolve_full a v))))"

text \<open>
  Steps 2 to 4 of \<^verbatim>\<open>detect_r_peaks\<close>: derivative, squaring, moving window
  integration. \<^verbatim>\<open>np.ones\<close> raises ValueError on a negative length.
\<close>

definition enhance :: "real list \<Rightarrow> real \<Rightarrow> error + real list" where
  "enhance filtered fs =
     (let diff = np_diff_real filtered;
          squared = map (\<lambda>d. d ^ 2) diff;
          window_size = py_int (0.15 * fs)
      in if window_size < 0 then Inl ValueError
         else np_convolve_same squared
                (replicate (nat window_size) (1 / real_of_int window_size)))"

subsection \<open>The peak detector\<close>

text \<open>\<^verbatim>\<open>np.max\<close> raises ValueError on an empty array.\<close>

definition np_max :: "real list \<Rightarrow> error + real" where
  "np_max xs = (if xs = [] then Inl ValueError else Inr (Max (set xs)))"

text \<open>
  scipy's \<^verbatim>\<open>_local_maxima_1d\<close>. The inner loop looks for the next sample that
  differs from \<open>x[i]\<close>; \<open>i_max = len(x) - 1\<close>.
\<close>

function look_ahead :: "real list \<Rightarrow> nat \<Rightarrow> nat \<Rightarrow> nat" where
  "look_ahead x i i_ahead =
     (if i_ahead < length x - 1 \<and> x ! i_ahead = x ! i then look_ahead x i (i_ahead + 1)
      else i_ahead)"
  by pat_completeness auto
termination
  by (relation "measure (\<lambda>(x, i, i_ahead). length x - 1 - i_ahead)") auto

text \<open>
  The outer loop: a sample (or a flat run of samples) higher than both its neighbours is
  a maximum, reported at the middle of the run. The first and the last sample are never
  maxima.
\<close>

function local_maxima_from :: "real list \<Rightarrow> nat \<Rightarrow> nat list" where
  "local_maxima_from x i =
     (if i < length x - 1 then
        (if x ! (i - 1) < x ! i then
           (let i_ahead = look_ahead x i (i + 1)
            in if x ! i_ahead < x ! i
               then ((i + (i_ahead - 1)) div 2) # local_maxima_from x (i_ahead + 1)
               else local_maxima_from x (i + 1))
         else local_maxima_from x (i + 1))
      else [])"
  by pat_completeness auto
termination
proof (relation "measure (\<lambda>(x, i). length x - i)")
  show "wf (measure (\<lambda>(x :: real list, i). length x - i))"
    by simp
next
  fix x :: "real list" and i xa :: nat
  assume a: "i < length x - 1" and b: "xa = look_ahead x i (i + 1)"
  have "k \<le> look_ahead x j k" for j k
    by (induction x j k rule: look_ahead.induct)
       (metis Suc_eq_plus1 Suc_leD le_refl look_ahead.simps)
  then have "i + 1 \<le> xa"
    using b by simp
  then show "((x, xa + 1), x, i) \<in> measure (\<lambda>(x, i). length x - i)"
    using a by simp
qed auto

definition local_maxima_1d :: "real list \<Rightarrow> nat list" where
  "local_maxima_1d x = local_maxima_from x 1"

text \<open>
  scipy's \<^verbatim>\<open>_select_by_peak_distance\<close>. The two inner loops clear the flags of the
  peaks closer than \<open>distance\<close> to peak \<open>j\<close>, to its left (the argument is \<open>k + 1\<close>, so
  that \<open>0\<close> is the end of the array) and to its right.
\<close>

fun clear_left :: "nat list \<Rightarrow> int \<Rightarrow> nat \<Rightarrow> nat \<Rightarrow> bool list \<Rightarrow> bool list" where
  "clear_left peaks distance j 0 keep = keep"
| "clear_left peaks distance j (Suc k) keep =
     (if int (peaks ! j) - int (peaks ! k) < distance
      then clear_left peaks distance j k (keep[k := False])
      else keep)"

function clear_right :: "nat list \<Rightarrow> int \<Rightarrow> nat \<Rightarrow> nat \<Rightarrow> bool list \<Rightarrow> bool list" where
  "clear_right peaks distance j k keep =
     (if k < length peaks \<and> int (peaks ! k) - int (peaks ! j) < distance
      then clear_right peaks distance j (k + 1) (keep[k := False])
      else keep)"
  by pat_completeness auto
termination
  by (relation "measure (\<lambda>(peaks, distance, j, k, keep). length peaks - k)") auto

text \<open>One round of the outer loop: a peak already cleared is skipped.\<close>

definition visit :: "nat list \<Rightarrow> int \<Rightarrow> bool list \<Rightarrow> nat \<Rightarrow> bool list" where
  "visit peaks distance keep j =
     (if \<not> keep ! j then keep
      else clear_right peaks distance j (j + 1) (clear_left peaks distance j j keep))"

text \<open>
  \<^verbatim>\<open>np.argsort\<close>: the positions in increasing order of priority. Equal priorities
  are kept in their order here; numpy does not promise an order among them.
\<close>

definition argsort :: "real list \<Rightarrow> nat list" where
  "argsort priority = sort_key (\<lambda>i. priority ! i) [0..<length priority]"

text \<open>The peaks are visited from the highest priority to the lowest.\<close>

definition select_by_peak_distance :: "nat list \<Rightarrow> real list \<Rightarrow> int \<Rightarrow> bool list" where
  "select_by_peak_distance peaks priority distance =
     (let keep = replicate (length peaks) True;
          priority_to_position = argsort priority
      in foldl (visit peaks distance) keep (rev priority_to_position))"

text \<open>
  \<^verbatim>\<open>scipy.signal.find_peaks(x, height=h, distance=d)\<close>: the local maxima, those of
  height at least \<open>h\<close>, thinned to the minimal distance. scipy raises ValueError on a
  distance below 1.
\<close>

definition find_peaks :: "real list \<Rightarrow> real \<Rightarrow> int \<Rightarrow> error + nat list" where
  "find_peaks x height distance =
     (if distance < 1 then Inl ValueError
      else
        (let peaks = local_maxima_1d x;
             peaks = filter (\<lambda>p. height \<le> x ! p) peaks;
             keep = select_by_peak_distance peaks (map (\<lambda>p. x ! p) peaks) distance
         in Inr (map fst (filter snd (zip peaks keep)))))"

text \<open>Steps 5 and 6 of \<^verbatim>\<open>detect_r_peaks\<close>.\<close>

definition threshold_peaks :: "real list \<Rightarrow> real \<Rightarrow> real \<Rightarrow> error + nat list" where
  "threshold_peaks integrated fs threshold_factor =
     (case np_max integrated of
        Inl e \<Rightarrow> Inl e
      | Inr m \<Rightarrow> find_peaks integrated (threshold_factor * m) (py_int (0.6 * fs)))"

text \<open>\<^verbatim>\<open>detect_r_peaks(ecg, fs, threshold_factor)\<close>: an error of any step ends the call.\<close>

definition detect_r_peaks :: "filtfilt_fn \<Rightarrow> real list \<Rightarrow> real \<Rightarrow> real \<Rightarrow> error + nat list" where
  "detect_r_peaks filtfilt ecg fs threshold_factor =
     (case butter 2 (5, 15) fs of
        Inl e \<Rightarrow> Inl e
      | Inr ba \<Rightarrow>
          (case filtfilt ba ecg of
             Inl e \<Rightarrow> Inl e
           | Inr filtered \<Rightarrow>
               (case enhance filtered fs of
                  Inl e \<Rightarrow> Inl e
                | Inr integrated \<Rightarrow> threshold_peaks integrated fs threshold_factor)))"

subsection \<open>Auxiliary definitions\<close>

text \<open>
  The interval series of \<^verbatim>\<open>compute_hrv_metrics\<close>, in milliseconds, named for the
  statements below.
\<close>

definition intervals_ms :: "int list \<Rightarrow> real \<Rightarrow> npfloat list" where
  "intervals_ms r_peaks fs =
     map (\<lambda>d. fmul (fdiv (Fin (real_of_int d)) (Fin fs)) (Fin 1000)) (np_diff_int r_peaks)"

text \<open>
  What a power spectrum is: finite frequencies in increasing order, each with a finite
  density that is not negative.
\<close>

fun is_fin :: "npfloat \<Rightarrow> bool" where
  "is_fin (Fin a) = True"
| "is_fin _ = False"

fun nonneg_fin :: "npfloat \<Rightarrow> bool" where
  "nonneg_fin (Fin a) = (0 \<le> a)"
| "nonneg_fin _ = False"

definition spectrum_ok :: "(npfloat \<times> npfloat) list \<Rightarrow> bool" where
  "spectrum_ok sp =
     (list_all (\<lambda>(f, p). is_fin f \<and> nonneg_fin p) sp \<and>
      sorted_wrt (\<lambda>a b. fle (fst a) (fst b)) sp)"

text \<open>
  Two spectral estimators to run the analysis with: a white spectrum on the frequency
  grid \<open>k * fs / nperseg\<close> for \<open>k = 0, \<dots>, nperseg div 2\<close>, and one that always fails.
\<close>

definition welch_white :: welch_fn where
  "welch_white x fs nperseg =
     (case fs of
        Fin f \<Rightarrow>
          if 0 < f \<and> 0 < nperseg
          then Inr (map (\<lambda>k. (Fin (real k * f / real nperseg), Fin 1)) [0..<nperseg div 2 + 1])
          else Inl ValueError
      | _ \<Rightarrow> Inl ValueError)"

definition welch_fails :: welch_fn where
  "welch_fails x fs nperseg = Inl ValueError"

subsection \<open>Auxiliary definitions for the detector\<close>

text \<open>
  A filter to run the detector with: it returns the signal as it is, and refuses a signal
  no longer than the padding of scipy's \<^verbatim>\<open>filtfilt\<close> (15 samples for this design). The
  steps after the filter are the source's own.
\<close>

definition passthrough :: filtfilt_fn where
  "passthrough ba x = (if length x \<le> 15 then Inl ValueError else Inr x)"

text \<open>
  The envelope as the specification words it (section 4.2): a centered moving average of
  window length \<open>round(0.15 * samplingRate)\<close>, of the length of its input, the input
  padded with zeros at both ends.
\<close>

definition zero_padded :: "real list \<Rightarrow> int \<Rightarrow> real" where
  "zero_padded xs j = (if 0 \<le> j \<and> j < int (length xs) then xs ! nat j else 0)"

definition moving_average :: "nat \<Rightarrow> real list \<Rightarrow> real list" where
  "moving_average w xs =
     map (\<lambda>i. (\<Sum>k\<leftarrow>[0..<w]. zero_padded xs (int i + int k - int (w div 2))) / real w)
       [0..<length xs]"

definition envelope_spec :: "real list \<Rightarrow> real \<Rightarrow> real list" where
  "envelope_spec squared fs = moving_average (nat (round (0.15 * fs))) squared"

text \<open>
  Signals to run the detector on: two bumps 21 samples apart, a short plateau of 16
  samples, and a single pulse at the second of \<open>n\<close> samples.
\<close>

definition ecg_two_bumps :: "real list" where
  "ecg_two_bumps = replicate 4 0 @ [1] @ replicate 20 0 @ [1] @ replicate 4 0"

definition ecg_short :: "real list" where
  "ecg_short = [0] @ replicate 14 1 @ [0]"

definition pulse_signal :: "nat \<Rightarrow> real list" where
  "pulse_signal n = [0, 1] @ replicate (n - 2) 0"

subsection \<open>Heart-rate variability: what the mapping holds\<close>

lemma length_np_diff_int: "length (np_diff_int xs) = length xs - 1"
  by (simp add: np_diff_int_def)

lemma length_intervals_ms: "length (intervals_ms r fs) = length r - 1"
  by (simp add: intervals_ms_def length_np_diff_int)

lemma hrv_time_domain:
  assumes "compute_hrv_metrics welch r fs = Inr hrv"
  shows "hrv ''mean_rr'' = Some (np_mean (intervals_ms r fs))"
    and "hrv ''std_rr'' = Some (np_std (intervals_ms r fs))"
    and "hrv ''rmssd'' = Some (fsqrt (np_mean (map (\<lambda>v. fmul v v) (np_diff (intervals_ms r fs)))))"
    and "hrv ''sdsd'' = Some (np_std (np_diff (intervals_ms r fs)))"
    and "hrv ''nn50'' = Some (Fin (real (length (filter (\<lambda>v. fless (Fin 50) (fabs v)) (np_diff (intervals_ms r fs))))))"
    and "hrv ''pnn50'' = Some (fmul (fdiv (Fin (real (length (filter (\<lambda>v. fless (Fin 50) (fabs v)) (np_diff (intervals_ms r fs)))))) (Fin (real (length (intervals_ms r fs))))) (Fin 100))"
  using assms
  by (auto simp: compute_hrv_metrics_def intervals_ms_def Let_def split: if_splits sum.splits)

lemma hrv_short:
  assumes "length r - 1 \<le> 10"
  shows "\<exists>hrv. compute_hrv_metrics welch r fs = Inr hrv"
  using assms
  by (simp add: compute_hrv_metrics_def Let_def length_np_diff_int)

lemma hrv_short_keys:
  assumes "length r - 1 \<le> 10" "compute_hrv_metrics welch r fs = Inr hrv"
  shows "hrv ''lf_power'' = None" "hrv ''hf_power'' = None" "hrv ''lf_hf_ratio'' = None"
  using assms
  by (auto simp add: compute_hrv_metrics_def Let_def length_np_diff_int)

lemma hrv_long:
  assumes "10 < length r - 1" "compute_hrv_metrics welch r fs = Inr hrv"
  shows "\<exists>spectrum. welch (intervals_ms r fs) (fdiv (Fin 1000) (np_mean (intervals_ms r fs))) (min 256 (length (intervals_ms r fs))) = Inr spectrum
     \<and> hrv ''lf_power'' = Some (np_trapz (band 0.04 0.15 spectrum))
     \<and> hrv ''hf_power'' = Some (np_trapz (band 0.15 0.4 spectrum))
     \<and> hrv ''lf_hf_ratio'' = Some (if fless (Fin 0) (np_trapz (band 0.15 0.4 spectrum)) then fdiv (np_trapz (band 0.04 0.15 spectrum)) (np_trapz (band 0.15 0.4 spectrum)) else Fin 0)"
proof -
  let ?w = "welch (intervals_ms r fs) (fdiv (Fin 1000) (np_mean (intervals_ms r fs))) (min 256 (length (intervals_ms r fs)))"
  show ?thesis
  proof (cases ?w)
    case (Inl e)
    with assms show ?thesis
      by (simp add: compute_hrv_metrics_def intervals_ms_def Let_def length_np_diff_int)
  next
    case (Inr sp)
    with assms show ?thesis
      by (auto simp add: compute_hrv_metrics_def intervals_ms_def Let_def length_np_diff_int)
  qed
qed

lemma np_sum_replicate: "np_sum (replicate n (Fin v)) = Fin (real n * v)"
  by (induction n) (simp_all add: np_sum_def algebra_simps)

lemma np_mean_replicate: "0 < n \<Longrightarrow> np_mean (replicate n (Fin v)) = Fin v"
  by (simp add: np_mean_def np_sum_replicate)



lemma intervals_ms_regular:
  assumes "fs \<noteq> 0" "np_diff_int r = replicate n d"
  shows "intervals_ms r fs = replicate n (Fin (real_of_int d / fs * 1000))"
  using assms by (simp add: intervals_ms_def)

lemma length_np_diff: "length (np_diff xs) = length xs - 1"
  by (simp add: np_diff_def)

lemma nonneg_fin_iff: "nonneg_fin v \<longleftrightarrow> (\<exists>a. v = Fin a \<and> 0 \<le> a)"
  by (cases v) simp_all

lemma is_fin_iff: "is_fin v \<longleftrightarrow> (\<exists>a. v = Fin a)"
  by (cases v) simp_all

lemma spectrum_ok_band: "spectrum_ok sp \<Longrightarrow> spectrum_ok (band lo hi sp)"
  by (auto simp: spectrum_ok_def band_def list_all_iff sorted_wrt_filter)

lemma np_trapz_nonneg: "spectrum_ok sp \<Longrightarrow> nonneg_fin (np_trapz sp)"
proof (induction sp rule: induct_list012)
  case 1
  then show ?case by (simp add: np_trapz_def np_sum_def)
next
  case (2 x)
  then show ?case by (simp add: np_trapz_def np_sum_def)
next
  case (3 p q zs)
  from "3.prems" have ok: "spectrum_ok (q # zs)"
    by (simp add: spectrum_ok_def)
  then obtain t where t: "np_trapz (q # zs) = Fin t" "0 \<le> t"
    using "3.IH"(2) by (auto simp: nonneg_fin_iff)
  obtain f0 p0 f1 p1 where pq: "p = (Fin f0, Fin p0)" "q = (Fin f1, Fin p1)"
    and b: "0 \<le> p0" "0 \<le> p1" "f0 \<le> f1"
    using "3.prems"
    by (cases p; cases q) (auto simp: spectrum_ok_def nonneg_fin_iff is_fin_iff)
  have "np_trapz (p # q # zs) = fadd (Fin ((f1 - f0) * (p1 + p0) / 2)) (np_trapz (q # zs))"
    by (simp add: np_trapz_def np_sum_def pq fsub_def)
  with t b show ?case by simp
qed

lemma hrv_returns:
  assumes "welch (intervals_ms r fs) (fdiv (Fin 1000) (np_mean (intervals_ms r fs)))
             (min 256 (length (intervals_ms r fs))) = Inr sp"
  shows "\<exists>hrv. compute_hrv_metrics welch r fs = Inr hrv"
  using assms
  by (simp add: compute_hrv_metrics_def intervals_ms_def Let_def)

lemma welch_white_regular:
  assumes "0 < fs" "np_diff_int r = replicate n d" "0 < n" "0 < d"
  shows "\<exists>hrv. compute_hrv_metrics welch_white r fs = Inr hrv"
proof -
  have rr: "intervals_ms r fs = replicate n (Fin (real_of_int d / fs * 1000))"
    using intervals_ms_regular [of fs r n d] assms(1,2) by simp
  have "\<exists>sp. welch_white (intervals_ms r fs) (fdiv (Fin 1000) (np_mean (intervals_ms r fs)))
             (min 256 (length (intervals_ms r fs))) = Inr sp"
    using assms by (simp add: rr np_mean_replicate welch_white_def)
  then show ?thesis
    using hrv_returns by blast
qed

lemma welch_white_ok:
  assumes "welch_white x f k = Inr sp"
  shows "spectrum_ok sp"
proof -
  obtain a where a: "f = Fin a" "0 < a" "0 < k"
    and sp: "sp = map (\<lambda>j. (Fin (real j * a / real k), Fin 1)) [0..<k div 2 + 1]"
    using assms by (cases f) (auto simp: welch_white_def split: if_splits)
  have "sorted_wrt (\<lambda>i j. fle (Fin (real i * a / real k)) (Fin (real j * a / real k)))
          [0..<k div 2 + 1]"
    by (rule sorted_wrt_mono_rel [OF _ sorted_wrt_upt])
       (use a in \<open>simp add: divide_right_mono\<close>)
  then have "sorted_wrt (\<lambda>p q. fle (fst p) (fst q)) sp"
    unfolding sp sorted_wrt_map by simp
  moreover have "list_all (\<lambda>(f, p). is_fin f \<and> nonneg_fin p) sp"
    unfolding sp by (simp add: list_all_iff)
  ultimately show ?thesis
    by (simp add: spectrum_ok_def)
qed

lemma hrv_regular_spectrum:
  assumes "0 < fs" "np_diff_int r = replicate n d" "10 < n" "0 < d"
    and "compute_hrv_metrics welch_white r fs = Inr hrv"
  shows "hrv ''hf_power'' =
           Some (np_trapz (band 0.15 0.4
             (map (\<lambda>k. (Fin (real k * (fs / real_of_int d) / real (min 256 n)), Fin 1))
                [0..<min 256 n div 2 + 1])))"
    and "''lf_hf_ratio'' \<in> dom hrv"
proof -
  have rr: "intervals_ms r fs = replicate n (Fin (real_of_int d / fs * 1000))"
    using intervals_ms_regular [of fs r n d] assms(1,2) by simp
  have n: "10 < length r - 1"
    using assms(2,3) length_np_diff_int [of r] by simp
  have w: "welch_white (intervals_ms r fs) (fdiv (Fin 1000) (np_mean (intervals_ms r fs)))
             (min 256 (length (intervals_ms r fs))) =
           Inr (map (\<lambda>k. (Fin (real k * (fs / real_of_int d) / real (min 256 n)), Fin 1))
                [0..<min 256 n div 2 + 1])"
    using assms by (simp add: rr np_mean_replicate welch_white_def)
  from hrv_long [OF n assms(5)] w
  show "hrv ''hf_power'' =
           Some (np_trapz (band 0.15 0.4
             (map (\<lambda>k. (Fin (real k * (fs / real_of_int d) / real (min 256 n)), Fin 1))
                [0..<min 256 n div 2 + 1])))"
    and "''lf_hf_ratio'' \<in> dom hrv"
    by auto
qed

subsection \<open>Heart rate and variability: the claims\<close>

text \<open>
  Claim C1 as the specification states it: with fewer than 2 beats, \<open>compute_heart_rate\<close>
  and \<open>compute_hrv_metrics\<close> raise \<open>InsufficientBeatsError\<close>. The code has no such
  check. On the single beat \<open>[100]\<close> at 360 Hz the rate is the empty array and the
  variability metrics are returned too.
\<close>

theorem short_input_counterexample:
  "compute_heart_rate [100] 360 = Inr [] \<and>
   compute_hrv_metrics welch_fails [100] 360 \<noteq> Inl InsufficientBeatsError"
  by (simp add: compute_heart_rate_def compute_hrv_metrics_def np_diff_int_def Let_def)

text \<open>
  Claim C1, amended: for every sequence of fewer than 2 beats, \<open>compute_heart_rate\<close>
  raises nothing and returns the empty array, and \<open>compute_hrv_metrics\<close> raises nothing
  and returns the mapping in which \<open>mean_rr\<close>, \<open>std_rr\<close>, \<open>rmssd\<close>, \<open>sdsd\<close> and
  \<open>pnn50\<close> are NaN, \<open>nn50\<close> is 0 and the frequency-domain keys are absent.
\<close>

theorem short_input_returns:
  assumes "length r_peaks < 2"
  shows "compute_heart_rate r_peaks fs = Inr [] \<and>
         (\<exists>hrv. compute_hrv_metrics welch r_peaks fs = Inr hrv \<and>
            hrv ''mean_rr'' = Some NaN \<and> hrv ''std_rr'' = Some NaN \<and>
            hrv ''rmssd'' = Some NaN \<and> hrv ''sdsd'' = Some NaN \<and>
            hrv ''nn50'' = Some (Fin 0) \<and> hrv ''pnn50'' = Some NaN \<and>
            hrv ''lf_power'' = None \<and> hrv ''hf_power'' = None \<and>
            hrv ''lf_hf_ratio'' = None)"
proof -
  have d: "np_diff_int r_peaks = []"
    using assms length_np_diff_int [of r_peaks] by simp
  then have i: "intervals_ms r_peaks fs = []"
    by (simp add: intervals_ms_def)
  have le: "length r_peaks - 1 \<le> 10"
    using assms by simp
  obtain hrv where h: "compute_hrv_metrics welch r_peaks fs = Inr hrv"
    using hrv_short [OF le] by blast
  have e: "np_mean [] = NaN" "np_std [] = NaN" "np_diff [] = []"
    by (simp_all add: np_mean_def np_sum_def np_std_def np_diff_def)
  have "hrv ''mean_rr'' = Some NaN" "hrv ''std_rr'' = Some NaN"
    "hrv ''rmssd'' = Some NaN" "hrv ''sdsd'' = Some NaN"
    "hrv ''nn50'' = Some (Fin 0)" "hrv ''pnn50'' = Some NaN"
    using hrv_time_domain [OF h] by (simp_all add: i e)
  moreover have "hrv ''lf_power'' = None" "hrv ''hf_power'' = None" "hrv ''lf_hf_ratio'' = None"
    using hrv_short_keys [OF le h] by simp_all
  moreover have "compute_heart_rate r_peaks fs = Inr []"
    by (simp add: compute_heart_rate_def d)
  ultimately show ?thesis
    using h by simp
qed

text \<open>The amended claim C1 at the single beat \<open>[100]\<close>, 360 Hz.\<close>

theorem short_input_returns_witness:
  "compute_heart_rate [100] 360 = Inr [] \<and>
   (\<exists>hrv. compute_hrv_metrics welch_fails [100] 360 = Inr hrv \<and>
      hrv ''mean_rr'' = Some NaN \<and> hrv ''std_rr'' = Some NaN \<and>
      hrv ''rmssd'' = Some NaN \<and> hrv ''sdsd'' = Some NaN \<and>
      hrv ''nn50'' = Some (Fin 0) \<and> hrv ''pnn50'' = Some NaN \<and>
      hrv ''lf_power'' = None \<and> hrv ''hf_power'' = None \<and>
      hrv ''lf_hf_ratio'' = None)"
  using short_input_returns [of "[100]" 360 welch_fails] by simp

text \<open>
  Claim C3: the mapping returned by \<open>compute_hrv_metrics\<close> has the keys \<open>lf_power\<close>,
  \<open>hf_power\<close> and \<open>lf_hf_ratio\<close> if and only if there are at least 11 inter-beat
  intervals; with fewer intervals nothing is raised and the six time-domain metrics are
  returned.
\<close>

theorem frequency_keys_iff:
  "(compute_hrv_metrics welch r_peaks fs = Inr hrv \<longrightarrow>
      (''lf_power'' \<in> dom hrv \<longleftrightarrow> 11 \<le> length (np_diff_int r_peaks)) \<and>
      (''hf_power'' \<in> dom hrv \<longleftrightarrow> 11 \<le> length (np_diff_int r_peaks)) \<and>
      (''lf_hf_ratio'' \<in> dom hrv \<longleftrightarrow> 11 \<le> length (np_diff_int r_peaks))) \<and>
   (length (np_diff_int r_peaks) < 11 \<longrightarrow>
      (\<exists>hrv. compute_hrv_metrics welch r_peaks fs = Inr hrv \<and>
         {''mean_rr'', ''std_rr'', ''rmssd'', ''sdsd'', ''nn50'', ''pnn50''} \<subseteq> dom hrv))"
proof (intro conjI impI)
  assume h: "compute_hrv_metrics welch r_peaks fs = Inr hrv"
  show "''lf_power'' \<in> dom hrv \<longleftrightarrow> 11 \<le> length (np_diff_int r_peaks)"
    using hrv_short_keys(1) [OF _ h] hrv_long [OF _ h]
    by (cases "10 < length r_peaks - 1") (auto simp: length_np_diff_int)
  show "''hf_power'' \<in> dom hrv \<longleftrightarrow> 11 \<le> length (np_diff_int r_peaks)"
    using hrv_short_keys(2) [OF _ h] hrv_long [OF _ h]
    by (cases "10 < length r_peaks - 1") (auto simp: length_np_diff_int)
  show "''lf_hf_ratio'' \<in> dom hrv \<longleftrightarrow> 11 \<le> length (np_diff_int r_peaks)"
    using hrv_short_keys(3) [OF _ h] hrv_long [OF _ h]
    by (cases "10 < length r_peaks - 1") (auto simp: length_np_diff_int)
next
  assume "length (np_diff_int r_peaks) < 11"
  then have le: "length r_peaks - 1 \<le> 10"
    by (simp add: length_np_diff_int)
  obtain hrv where h: "compute_hrv_metrics welch r_peaks fs = Inr hrv"
    using hrv_short [OF le] by blast
  have "''mean_rr'' \<in> dom hrv" "''std_rr'' \<in> dom hrv" "''rmssd'' \<in> dom hrv"
    "''sdsd'' \<in> dom hrv" "''nn50'' \<in> dom hrv" "''pnn50'' \<in> dom hrv"
    using hrv_time_domain [OF h] by blast+
  with h show "\<exists>hrv. compute_hrv_metrics welch r_peaks fs = Inr hrv \<and>
         {''mean_rr'', ''std_rr'', ''rmssd'', ''sdsd'', ''nn50'', ''pnn50''} \<subseteq> dom hrv"
    by blast
qed

text \<open>Claim C3 at 12 beats (11 intervals) and at 3 beats (2 intervals), 100 Hz.\<close>

theorem frequency_keys_iff_witness:
  "(\<exists>hrv. compute_hrv_metrics welch_white [0, 100, 200, 300, 400, 500, 600, 700, 800, 900, 1000, 1100] 100 = Inr hrv \<and>
      ''lf_power'' \<in> dom hrv \<and> ''hf_power'' \<in> dom hrv \<and> ''lf_hf_ratio'' \<in> dom hrv) \<and>
   length (np_diff_int [0, 100, 200]) < 11 \<and>
   (\<exists>hrv. compute_hrv_metrics welch_white [0, 100, 200] 100 = Inr hrv \<and>
      ''lf_power'' \<notin> dom hrv \<and> ''hf_power'' \<notin> dom hrv \<and> ''lf_hf_ratio'' \<notin> dom hrv \<and>
      {''mean_rr'', ''std_rr'', ''rmssd'', ''sdsd'', ''nn50'', ''pnn50''} \<subseteq> dom hrv)"
proof -
  let ?long = "[0, 100, 200, 300, 400, 500, 600, 700, 800, 900, 1000, 1100] :: int list"
  let ?short = "[0, 100, 200] :: int list"
  have l: "length (np_diff_int ?long) = 11" and s: "length (np_diff_int ?short) = 2"
    by (simp_all add: length_np_diff_int)
  obtain h1 where h1: "compute_hrv_metrics welch_white ?long 100 = Inr h1"
    using welch_white_regular [of 100 ?long 11 100]
    by (auto simp: np_diff_int_def eval_nat_numeral)
  obtain h2 where h2: "compute_hrv_metrics welch_white ?short 100 = Inr h2"
    using hrv_short [of ?short welch_white 100] by auto
  have "''lf_power'' \<in> dom h1 \<and> ''hf_power'' \<in> dom h1 \<and> ''lf_hf_ratio'' \<in> dom h1"
    using frequency_keys_iff [of welch_white ?long 100 h1] h1 l by simp
  moreover have "''lf_power'' \<notin> dom h2 \<and> ''hf_power'' \<notin> dom h2 \<and> ''lf_hf_ratio'' \<notin> dom h2"
    using frequency_keys_iff [of welch_white ?short 100 h2] h2 s by simp
  moreover have "{''mean_rr'', ''std_rr'', ''rmssd'', ''sdsd'', ''nn50'', ''pnn50''} \<subseteq> dom h2"
    using frequency_keys_iff [of welch_white ?short 100 h2] h2 s by auto
  ultimately show ?thesis
    using h1 h2 s by auto
qed



text \<open>
  Claim C5: with at least 2 beats, \<open>pnn50\<close> lies in \<open>[0, 100]\<close>; when the
  frequency-domain keys are present, \<open>lf_hf_ratio\<close> is exactly 0 when \<open>hf_power\<close> is 0,
  and it is at least 0 whenever the spectral estimator returns what a power spectrum is:
  finite frequencies in increasing order, each with a finite density that is not negative.
\<close>

theorem pnn50_and_ratio_bounds:
  assumes "2 \<le> length r_peaks"
    and "compute_hrv_metrics welch r_peaks fs = Inr hrv"
  shows "(\<exists>p. hrv ''pnn50'' = Some (Fin p) \<and> 0 \<le> p \<and> p \<le> 100) \<and>
         (''lf_hf_ratio'' \<in> dom hrv \<and> hrv ''hf_power'' = Some (Fin 0) \<longrightarrow>
            hrv ''lf_hf_ratio'' = Some (Fin 0)) \<and>
         (''lf_hf_ratio'' \<in> dom hrv \<and> (\<forall>x f k sp. welch x f k = Inr sp \<longrightarrow> spectrum_ok sp) \<longrightarrow>
            (\<exists>q. hrv ''lf_hf_ratio'' = Some (Fin q) \<and> 0 \<le> q))"
proof (intro conjI impI)
  let ?rr = "intervals_ms r_peaks fs"
  let ?k = "length (filter (\<lambda>v. fless (Fin 50) (fabs v)) (np_diff ?rr))"
  have n: "0 < length ?rr"
    using assms(1) by (simp add: length_intervals_ms)
  have "?k \<le> length (np_diff ?rr)"
    by (rule length_filter_le)
  then have k: "?k \<le> length ?rr"
    by (simp add: length_np_diff)
  have "hrv ''pnn50'' = Some (Fin (real ?k / real (length ?rr) * 100))"
    using hrv_time_domain(6) [OF assms(2)] n by simp
  moreover have "0 \<le> real ?k / real (length ?rr) * 100"
    by simp
  moreover have "real ?k / real (length ?rr) * 100 \<le> 100"
    using k n by (simp add: divide_le_eq)
  ultimately show "\<exists>p. hrv ''pnn50'' = Some (Fin p) \<and> 0 \<le> p \<and> p \<le> 100"
    by blast
next
  assume a: "''lf_hf_ratio'' \<in> dom hrv \<and> hrv ''hf_power'' = Some (Fin 0)"
  have "10 < length r_peaks - 1"
    using a hrv_short_keys(3) [OF _ assms(2)] by (cases "10 < length r_peaks - 1") auto
  from hrv_long [OF this assms(2)] obtain sp where
    h: "hrv ''hf_power'' = Some (np_trapz (band 0.15 0.4 sp))"
    and r: "hrv ''lf_hf_ratio'' =
       Some (if fless (Fin 0) (np_trapz (band 0.15 0.4 sp))
             then fdiv (np_trapz (band 0.04 0.15 sp)) (np_trapz (band 0.15 0.4 sp)) else Fin 0)"
    by blast
  have "np_trapz (band 0.15 0.4 sp) = Fin 0"
    using a h by simp
  then show "hrv ''lf_hf_ratio'' = Some (Fin 0)"
    by (simp only: r fless.simps less_irrefl if_False)
next
  assume a: "''lf_hf_ratio'' \<in> dom hrv \<and> (\<forall>x f k sp. welch x f k = Inr sp \<longrightarrow> spectrum_ok sp)"
  have "10 < length r_peaks - 1"
    using a hrv_short_keys(3) [OF _ assms(2)] by (cases "10 < length r_peaks - 1") auto
  from hrv_long [OF this assms(2)] obtain sp where
    w: "welch (intervals_ms r_peaks fs) (fdiv (Fin 1000) (np_mean (intervals_ms r_peaks fs)))
          (min 256 (length (intervals_ms r_peaks fs))) = Inr sp"
    and r: "hrv ''lf_hf_ratio'' =
       Some (if fless (Fin 0) (np_trapz (band 0.15 0.4 sp))
             then fdiv (np_trapz (band 0.04 0.15 sp)) (np_trapz (band 0.15 0.4 sp)) else Fin 0)"
    by blast
  have ok: "spectrum_ok sp"
    using a w by blast
  have nn: "\<exists>a. np_trapz (band lo hi sp) = Fin a \<and> 0 \<le> a" for lo hi
    using np_trapz_nonneg [OF spectrum_ok_band [OF ok]] by (simp add: nonneg_fin_iff)
  obtain l where l: "np_trapz (band 0.04 0.15 sp) = Fin l" "0 \<le> l"
    using nn by blast
  obtain h where h: "np_trapz (band 0.15 0.4 sp) = Fin h" "0 \<le> h"
    using nn by blast
  note lh = l h
  show "\<exists>q. hrv ''lf_hf_ratio'' = Some (Fin q) \<and> 0 \<le> q"
    using r lh by (cases "0 < h") auto
qed

text \<open>
  Claim C5 at 12 beats 25 samples apart, 100 Hz: the spectrum has one bin in the
  high-frequency band, so \<open>hf_power\<close> is 0 and so is the ratio.
\<close>

theorem pnn50_and_ratio_bounds_witness:
  "(2 :: nat) \<le> length [0, 25, 50, 75, 100, 125, 150, 175, 200, 225, 250, 275 :: int] \<and>
   (\<exists>hrv. compute_hrv_metrics welch_white [0, 25, 50, 75, 100, 125, 150, 175, 200, 225, 250, 275] 100 = Inr hrv \<and>
      (\<exists>p. hrv ''pnn50'' = Some (Fin p) \<and> 0 \<le> p \<and> p \<le> 100) \<and>
      ''lf_hf_ratio'' \<in> dom hrv \<and> hrv ''hf_power'' = Some (Fin 0) \<and>
      hrv ''lf_hf_ratio'' = Some (Fin 0) \<and>
      (\<exists>q. hrv ''lf_hf_ratio'' = Some (Fin q) \<and> 0 \<le> q))"
proof -
  let ?r = "[0, 25, 50, 75, 100, 125, 150, 175, 200, 225, 250, 275] :: int list"
  have d: "np_diff_int ?r = replicate 11 25"
    by (simp add: np_diff_int_def eval_nat_numeral)
  obtain hrv where h: "compute_hrv_metrics welch_white ?r 100 = Inr hrv"
    using welch_white_regular [of 100, OF _ d] by auto
  have len: "2 \<le> length ?r"
    by simp
  have ok: "\<forall>x f k sp. welch_white x f k = Inr sp \<longrightarrow> spectrum_ok sp"
    using welch_white_ok by blast
  have dom: "''lf_hf_ratio'' \<in> dom hrv"
    using hrv_regular_spectrum(2) [OF _ d _ _ h] by simp
  have "[0..<min 256 11 div 2 + 1] = [0, 1, 2, 3, 4, 5 :: nat]"
    by (simp add: upt_rec)
  then have hf: "hrv ''hf_power'' = Some (Fin 0)"
    using hrv_regular_spectrum(1) [OF _ d _ _ h]
    by (simp add: band_def np_trapz_def np_sum_def)
  from pnn50_and_ratio_bounds [OF len h] dom hf ok h len
  show ?thesis
    by blast
qed

subsection \<open>The peak detector: local maxima and the minimal distance\<close>

declare look_ahead.simps [simp del] local_maxima_from.simps [simp del] clear_right.simps [simp del]

lemma look_ahead_ge: "k \<le> look_ahead x i k"
proof (induction x i k rule: look_ahead.induct)
  case (1 x i k)
  show ?case
  proof (cases "k < length x - 1 \<and> x ! k = x ! i")
    case True
    then have "look_ahead x i k = look_ahead x i (k + 1)"
      by (subst look_ahead.simps) simp
    with 1 [OF True] show ?thesis by simp
  next
    case False
    then have "look_ahead x i k = k"
      by (subst look_ahead.simps) auto
    then show ?thesis by simp
  qed
qed

lemma look_ahead_le: "k \<le> length x - 1 \<Longrightarrow> look_ahead x i k \<le> length x - 1"
proof (induction x i k rule: look_ahead.induct)
  case (1 x i k)
  show ?case
  proof (cases "k < length x - 1 \<and> x ! k = x ! i")
    case True
    then have "look_ahead x i k = look_ahead x i (k + 1)"
      by (subst look_ahead.simps) simp
    with 1(1) [OF True] True show ?thesis by simp
  next
    case False
    then have "look_ahead x i k = k"
      by (subst look_ahead.simps) auto
    with 1(2) show ?thesis by simp
  qed
qed

lemma lm_stop: "\<not> i < length x - 1 \<Longrightarrow> local_maxima_from x i = []"
  by (subst local_maxima_from.simps) simp

lemma lm_peak:
  "i < length x - 1 \<Longrightarrow> x ! (i - 1) < x ! i \<Longrightarrow> x ! look_ahead x i (i + 1) < x ! i \<Longrightarrow>
   local_maxima_from x i =
     ((i + (look_ahead x i (i + 1) - 1)) div 2) # local_maxima_from x (look_ahead x i (i + 1) + 1)"
  by (subst local_maxima_from.simps) (simp only: Let_def if_True)

lemma lm_nopeak:
  "i < length x - 1 \<Longrightarrow> x ! (i - 1) < x ! i \<Longrightarrow> \<not> x ! look_ahead x i (i + 1) < x ! i \<Longrightarrow>
   local_maxima_from x i = local_maxima_from x (i + 1)"
  by (subst local_maxima_from.simps) (simp only: Let_def if_True if_False)

lemma lm_flat:
  "i < length x - 1 \<Longrightarrow> \<not> x ! (i - 1) < x ! i \<Longrightarrow>
   local_maxima_from x i = local_maxima_from x (i + 1)"
  by (subst local_maxima_from.simps) (simp only: if_True if_False)

lemma local_maxima_from_props:
  "sorted_wrt (<) (local_maxima_from x i) \<and>
   (\<forall>p \<in> set (local_maxima_from x i). i \<le> p \<and> p < length x - 1)"
proof (induction x i rule: local_maxima_from.induct)
  case (1 x i)
  let ?a = "look_ahead x i (i + 1)"
  consider (stop) "\<not> i < length x - 1"
    | (peak) "i < length x - 1" "x ! (i - 1) < x ! i" "x ! ?a < x ! i"
    | (nopeak) "i < length x - 1" "x ! (i - 1) < x ! i" "\<not> x ! ?a < x ! i"
    | (flat) "i < length x - 1" "\<not> x ! (i - 1) < x ! i"
    by blast
  then show ?case
  proof cases
    case stop
    then show ?thesis by (simp add: lm_stop)
  next
    case peak
    note eq = lm_peak [OF peak]
    have ih: "sorted_wrt (<) (local_maxima_from x (?a + 1)) \<and>
       (\<forall>p \<in> set (local_maxima_from x (?a + 1)). ?a + 1 \<le> p \<and> p < length x - 1)"
      using 1(1) [OF peak(1,2) refl peak(3)] .
    have ge: "i + 1 \<le> ?a" by (rule look_ahead_ge)
    have le: "?a \<le> length x - 1"
      using peak(1) by (intro look_ahead_le) simp
    have m: "i \<le> (i + (?a - 1)) div 2" "(i + (?a - 1)) div 2 < ?a" "(i + (?a - 1)) div 2 < length x - 1"
      using ge le by simp_all
    have "\<forall>p \<in> set (local_maxima_from x (?a + 1)). (i + (?a - 1)) div 2 < p \<and> i \<le> p"
      using ih m(2) ge by auto
    with ih m show ?thesis
      unfolding eq by simp
  next
    case nopeak
    note eq = lm_nopeak [OF nopeak]
    from 1(2) [OF nopeak(1,2) refl nopeak(3)] show ?thesis
      unfolding eq by auto
  next
    case flat
    note eq = lm_flat [OF flat]
    from 1(3) [OF flat] show ?thesis
      unfolding eq by auto
  qed
qed

lemma length_clear_left: "length (clear_left peaks d j m keep) = length keep"
  by (induction m arbitrary: keep) simp_all

lemma length_clear_right: "length (clear_right peaks d j k keep) = length keep"
proof (induction peaks d j k keep rule: clear_right.induct)
  case (1 peaks d j k keep)
  show ?case
  proof (cases "k < length peaks \<and> int (peaks ! k) - int (peaks ! j) < d")
    case True
    then have "clear_right peaks d j k keep = clear_right peaks d j (k + 1) (keep[k := False])"
      by (subst clear_right.simps) simp
    with 1 [OF True] show ?thesis by simp
  next
    case False
    then have "clear_right peaks d j k keep = keep"
      by (subst clear_right.simps) auto
    then show ?thesis by simp
  qed
qed

lemma sorted_nth_le:
  assumes "sorted_wrt (<) (peaks :: nat list)" "a \<le> b" "b < length peaks"
  shows "peaks ! a \<le> peaks ! b"
proof (cases "a = b")
  case True
  then show ?thesis by simp
next
  case False
  with assms have "peaks ! a < peaks ! b"
    by (simp add: sorted_wrt_iff_nth_less)
  then show ?thesis by simp
qed

lemma clear_left_nth:
  assumes "sorted_wrt (<) peaks" "m \<le> j" "j < length peaks" "k < length keep"
    "length keep = length peaks"
  shows "clear_left peaks d j m keep ! k =
           (keep ! k \<and> (m \<le> k \<or> d \<le> int (peaks ! j) - int (peaks ! k)))"
  using assms(2,4,5)
proof (induction m arbitrary: keep)
  case 0
  then show ?case by simp
next
  case (Suc m)
  show ?case
  proof (cases "int (peaks ! j) - int (peaks ! m) < d")
    case True
    have "clear_left peaks d j m (keep[m := False]) ! k =
            ((keep[m := False]) ! k \<and> (m \<le> k \<or> d \<le> int (peaks ! j) - int (peaks ! k)))"
      using Suc.prems by (intro Suc.IH) simp_all
    with True Suc.prems show ?thesis
      by (cases "k = m") auto
  next
    case False
    have "d \<le> int (peaks ! j) - int (peaks ! k)" if "k \<le> m"
    proof -
      have "peaks ! k \<le> peaks ! m"
        using assms(1) that Suc.prems assms(3) by (intro sorted_nth_le) simp_all
      with False show ?thesis by simp
    qed
    with False show ?thesis
      by (cases "k \<le> m") auto
  qed
qed

lemma clear_right_nth:
  assumes "sorted_wrt (<) peaks" "k < length keep" "length keep = length peaks"
  shows "clear_right peaks d j m keep ! k =
           (keep ! k \<and> (k < m \<or> d \<le> int (peaks ! k) - int (peaks ! j)))"
  using assms
proof (induction peaks d j m keep rule: clear_right.induct)
  case (1 peaks d j m keep)
  show ?case
  proof (cases "m < length peaks \<and> int (peaks ! m) - int (peaks ! j) < d")
    case True
    then have eq: "clear_right peaks d j m keep = clear_right peaks d j (m + 1) (keep[m := False])"
      by (subst clear_right.simps) simp
    have "clear_right peaks d j (m + 1) (keep[m := False]) ! k =
            ((keep[m := False]) ! k \<and> (k < m + 1 \<or> d \<le> int (peaks ! k) - int (peaks ! j)))"
      using "1.prems" by (intro "1.IH" [OF True]) simp_all
    with True "1.prems" show ?thesis
      unfolding eq by (cases "k = m") auto
  next
    case False
    then have eq: "clear_right peaks d j m keep = keep"
      by (subst clear_right.simps) auto
    have "d \<le> int (peaks ! k) - int (peaks ! j)" if "m \<le> k"
    proof -
      have "peaks ! m \<le> peaks ! k"
        using that "1.prems" by (intro sorted_nth_le) simp_all
      moreover have "m < length peaks"
        using that "1.prems" by simp
      ultimately show ?thesis
        using False by simp
    qed
    then show ?thesis
      unfolding eq by (cases "m \<le> k") auto
  qed
qed

lemma length_visit: "length (visit peaks d keep j) = length keep"
  by (simp add: visit_def length_clear_left length_clear_right)

lemma visit_nth:
  assumes "sorted_wrt (<) peaks" "j < length peaks" "k < length peaks"
    "length keep = length peaks" "keep ! j"
  shows "visit peaks d keep j ! k =
           (keep ! k \<and> (k = j \<or> d \<le> \<bar>int (peaks ! k) - int (peaks ! j)\<bar>))"
proof -
  have l: "clear_left peaks d j j keep ! k =
             (keep ! k \<and> (j \<le> k \<or> d \<le> int (peaks ! j) - int (peaks ! k)))"
    using assms by (intro clear_left_nth) simp_all
  have r: "clear_right peaks d j (j + 1) (clear_left peaks d j j keep) ! k =
             (clear_left peaks d j j keep ! k \<and>
              (k < j + 1 \<or> d \<le> int (peaks ! k) - int (peaks ! j)))"
    using assms by (intro clear_right_nth) (simp_all add: length_clear_left)
  have v: "visit peaks d keep j ! k =
             (keep ! k \<and> (j \<le> k \<or> d \<le> int (peaks ! j) - int (peaks ! k)) \<and>
              (k < j + 1 \<or> d \<le> int (peaks ! k) - int (peaks ! j)))"
    unfolding visit_def using assms(5) l r by simp
  have lt: "peaks ! k \<le> peaks ! j" if "k \<le> j"
    using assms that by (intro sorted_nth_le) simp_all
  have gt: "peaks ! j \<le> peaks ! k" if "j \<le> k"
    using assms that by (intro sorted_nth_le) simp_all
  consider "k < j" | "k = j" | "j < k"
    by linarith
  then show ?thesis
  proof cases
    case 1
    with lt have "\<bar>int (peaks ! k) - int (peaks ! j)\<bar> = int (peaks ! j) - int (peaks ! k)"
      by simp
    with 1 show ?thesis
      unfolding v by auto
  next
    case 2
    then show ?thesis
      unfolding v by auto
  next
    case 3
    with gt have "\<bar>int (peaks ! k) - int (peaks ! j)\<bar> = int (peaks ! k) - int (peaks ! j)"
      by simp
    with 3 show ?thesis
      unfolding v by auto
  qed
qed

lemma visit_sub:
  assumes "sorted_wrt (<) peaks" "j < length peaks" "k < length peaks"
    "length keep = length peaks" "visit peaks d keep j ! k"
  shows "keep ! k"
proof (cases "keep ! j")
  case True
  from visit_nth [OF assms(1-4) True] assms(5) show ?thesis by simp
next
  case False
  then have "visit peaks d keep j = keep" by (simp add: visit_def)
  with assms(5) show ?thesis by simp
qed

lemma foldl_visit:
  assumes "sorted_wrt (<) peaks" "length keep = length peaks" "set js \<subseteq> {..<length peaks}"
    and "P \<subseteq> {..<length peaks}"
    and "\<forall>j\<in>P. \<forall>k<length peaks. k \<noteq> j \<and> keep ! j \<and> keep ! k \<longrightarrow>
           d \<le> \<bar>int (peaks ! k) - int (peaks ! j)\<bar>"
  shows "length (foldl (visit peaks d) keep js) = length peaks \<and>
         (\<forall>j\<in>P \<union> set js. \<forall>k<length peaks.
            k \<noteq> j \<and> foldl (visit peaks d) keep js ! j \<and> foldl (visit peaks d) keep js ! k \<longrightarrow>
            d \<le> \<bar>int (peaks ! k) - int (peaks ! j)\<bar>)"
  using assms(2-)
proof (induction js arbitrary: keep P)
  case Nil
  then show ?case by simp
next
  case (Cons j js)
  let ?keep = "visit peaks d keep j"
  have j: "j < length peaks"
    using Cons.prems(2) by simp
  have len: "length ?keep = length peaks"
    using Cons.prems(1) by (simp add: length_visit)
  have sub: "keep ! k" if "k < length peaks" "?keep ! k" for k
    using visit_sub [OF assms(1) j that(1) Cons.prems(1) that(2)] .
  have inv: "\<forall>i\<in>insert j P. \<forall>k<length peaks. k \<noteq> i \<and> ?keep ! i \<and> ?keep ! k \<longrightarrow>
           d \<le> \<bar>int (peaks ! k) - int (peaks ! i)\<bar>"
  proof (intro ballI allI impI)
    fix i k
    assume i: "i \<in> insert j P" and k: "k < length peaks"
      and h: "k \<noteq> i \<and> ?keep ! i \<and> ?keep ! k"
    have il: "i < length peaks"
      using i j Cons.prems(3) by auto
    have ki: "keep ! k" "keep ! i"
      using sub k il h by simp_all
    show "d \<le> \<bar>int (peaks ! k) - int (peaks ! i)\<bar>"
    proof (cases "i = j")
      case True
      with ki have "keep ! j" by simp
      from visit_nth [OF assms(1) j k Cons.prems(1) this] h True show ?thesis
        by simp
    next
      case False
      with i have "i \<in> P" by simp
      with ki k h Cons.prems(4) show ?thesis
        by blast
    qed
  qed
  have P': "insert j P \<subseteq> {..<length peaks}"
    using j Cons.prems(3) by simp
  have "length (foldl (visit peaks d) ?keep js) = length peaks \<and>
         (\<forall>i\<in>insert j P \<union> set js. \<forall>k<length peaks.
            k \<noteq> i \<and> foldl (visit peaks d) ?keep js ! i \<and> foldl (visit peaks d) ?keep js ! k \<longrightarrow>
            d \<le> \<bar>int (peaks ! k) - int (peaks ! i)\<bar>)"
    using Cons.prems(2) by (intro Cons.IH [OF len _ P' inv]) simp
  then show ?case
    by simp
qed

lemma select_by_peak_distance_props:
  assumes "sorted_wrt (<) peaks" "length priority = length peaks"
  shows "length (select_by_peak_distance peaks priority d) = length peaks"
    and "\<And>j k. j < length peaks \<Longrightarrow> k < length peaks \<Longrightarrow> k \<noteq> j \<Longrightarrow>
           select_by_peak_distance peaks priority d ! j \<Longrightarrow>
           select_by_peak_distance peaks priority d ! k \<Longrightarrow>
           d \<le> \<bar>int (peaks ! k) - int (peaks ! j)\<bar>"
proof -
  let ?js = "rev (argsort priority)"
  have js: "set ?js = {..<length peaks}"
    using assms(2) by (auto simp: argsort_def)
  have *: "length (foldl (visit peaks d) (replicate (length peaks) True) ?js) = length peaks \<and>
         (\<forall>j\<in>{} \<union> set ?js. \<forall>k<length peaks.
            k \<noteq> j \<and> foldl (visit peaks d) (replicate (length peaks) True) ?js ! j \<and>
            foldl (visit peaks d) (replicate (length peaks) True) ?js ! k \<longrightarrow>
            d \<le> \<bar>int (peaks ! k) - int (peaks ! j)\<bar>)"
    using js by (intro foldl_visit [OF assms(1)]) simp_all
  show "length (select_by_peak_distance peaks priority d) = length peaks"
    using * by (simp add: select_by_peak_distance_def Let_def)
  show "d \<le> \<bar>int (peaks ! k) - int (peaks ! j)\<bar>"
    if "j < length peaks" "k < length peaks" "k \<noteq> j"
      "select_by_peak_distance peaks priority d ! j"
      "select_by_peak_distance peaks priority d ! k" for j k
    using * that js by (simp add: select_by_peak_distance_def Let_def)
qed

lemma kept_sorted:
  assumes "length bs = length xs"
    and "\<And>i j. i < j \<Longrightarrow> j < length xs \<Longrightarrow> bs ! i \<Longrightarrow> bs ! j \<Longrightarrow> R (xs ! i) (xs ! j)"
  shows "sorted_wrt R (map fst (filter snd (zip xs bs)))"
  using assms
proof (induction xs arbitrary: bs)
  case Nil
  then show ?case by simp
next
  case (Cons x xs)
  then obtain b bs' where bs: "bs = b # bs'" and len: "length bs' = length xs"
    by (cases bs) simp_all
  have tl: "sorted_wrt R (map fst (filter snd (zip xs bs')))"
  proof (rule Cons.IH [OF len])
    fix i j
    assume "i < j" "j < length xs" "bs' ! i" "bs' ! j"
    then show "R (xs ! i) (xs ! j)"
      using Cons.prems(2) [of "Suc i" "Suc j"] by (simp add: bs)
  qed
  have hd: "R x y" if "b" "y \<in> set (map fst (filter snd (zip xs bs')))" for y
  proof -
    from that(2) obtain j where "j < length xs" "y = xs ! j" "bs' ! j"
      by (auto simp: in_set_zip)
    with that(1) show ?thesis
      using Cons.prems(2) [of 0 "Suc j"] by (simp add: bs)
  qed
  show ?case
    using tl hd by (simp add: bs)
qed

lemma kept_subset: "set (map fst (filter snd (zip xs bs))) \<subseteq> set xs"
  by (auto dest: set_zip_leftD)

lemma local_maxima_1d_props:
  "sorted_wrt (<) (local_maxima_1d x)"
  "p \<in> set (local_maxima_1d x) \<Longrightarrow> 1 \<le> p \<and> p < length x - 1"
  using local_maxima_from_props [of x 1] by (simp_all add: local_maxima_1d_def)

lemma find_peaks_props:
  assumes "find_peaks x h d = Inr ps"
  shows "sorted_wrt (\<lambda>a b. int a + d \<le> int b) ps"
    and "set ps \<subseteq> set (local_maxima_1d x)"
    and "1 \<le> d"
proof -
  let ?peaks = "filter (\<lambda>p. h \<le> x ! p) (local_maxima_1d x)"
  let ?keep = "select_by_peak_distance ?peaks (map (\<lambda>p. x ! p) ?peaks) d"
  from assms show d: "1 \<le> d"
    by (simp add: find_peaks_def split: if_splits)
  with assms have ps: "ps = map fst (filter snd (zip ?peaks ?keep))"
    by (auto simp: find_peaks_def Let_def)
  have s: "sorted_wrt (<) ?peaks"
    by (intro sorted_wrt_filter local_maxima_1d_props(1))
  have pl: "length (map (\<lambda>p. x ! p) ?peaks) = length ?peaks"
    by simp
  note sel = select_by_peak_distance_props [OF s pl, where d = d]
  show "sorted_wrt (\<lambda>a b. int a + d \<le> int b) ps"
    unfolding ps
  proof (rule kept_sorted [OF sel(1)])
    fix i j
    assume ij: "i < j" "j < length ?peaks" "?keep ! i" "?keep ! j"
    then have "d \<le> \<bar>int (?peaks ! j) - int (?peaks ! i)\<bar>"
      by (intro sel(2)) simp_all
    moreover have "?peaks ! i < ?peaks ! j"
      using s ij(1,2) by (simp add: sorted_wrt_iff_nth_less)
    ultimately show "int (?peaks ! i) + d \<le> int (?peaks ! j)"
      by simp
  qed
  show "set ps \<subseteq> set (local_maxima_1d x)"
    unfolding ps using kept_subset [of ?peaks ?keep] by auto
qed

lemma detect_r_peaks_stages:
  assumes "detect_r_peaks filtfilt ecg fs tf = Inr peaks"
  shows "\<exists>ba filtered integrated m.
           butter 2 (5, 15) fs = Inr ba \<and> filtfilt ba ecg = Inr filtered \<and>
           enhance filtered fs = Inr integrated \<and> np_max integrated = Inr m \<and>
           find_peaks integrated (tf * m) (py_int (0.6 * fs)) = Inr peaks"
  using assms
  by (auto simp: detect_r_peaks_def threshold_peaks_def split: sum.splits)


subsection \<open>The enhancer: convolution and the moving average\<close>

lemma length_convolve_full: "length (convolve_full a v) = length a + length v - 1"
  by (simp add: convolve_full_def)

lemma convolve_full_nth:
  "n < length a + length v - 1 \<Longrightarrow>
   convolve_full a v ! n =
     (\<Sum>m\<leftarrow>[0..<length a]. if m \<le> n \<and> n - m < length v then a ! m * v ! (n - m) else 0)"
  unfolding convolve_full_def by (subst nth_map) (simp_all only: length_upt nth_upt diff_zero add_0)

lemma same_slice_fits:
  "0 < M \<Longrightarrow> 0 < N \<Longrightarrow> max M N + (min M N - 1) div 2 \<le> M + N - (1 :: nat)"
  using div_le_dividend [of "min M N - 1" 2] by arith

lemma same_slice_length:
  "0 < M \<Longrightarrow> 0 < N \<Longrightarrow> min (M + N - 1 - (min M N - 1) div 2) (max M N) = max M (N :: nat)"
  using same_slice_fits [of M N] by arith

lemma np_convolve_same_Inr:
  assumes "np_convolve_same a v = Inr r"
  shows "a \<noteq> []" "v \<noteq> []" "length r = max (length a) (length v)"
    and "\<And>i. i < max (length a) (length v) \<Longrightarrow>
           r ! i = convolve_full a v ! (i + (min (length a) (length v) - 1) div 2)"
proof -
  from assms show ne: "a \<noteq> []" "v \<noteq> []"
    by (auto simp: np_convolve_same_def split: if_splits)
  then have pos: "0 < length a" "0 < length v"
    by simp_all
  from assms ne have r: "r = take (max (length a) (length v))
       (drop ((min (length a) (length v) - 1) div 2) (convolve_full a v))"
    by (simp add: np_convolve_same_def)
  have le: "max (length a) (length v) + (min (length a) (length v) - 1) div 2
              \<le> length a + length v - 1"
    using pos by (rule same_slice_fits)
  show "length r = max (length a) (length v)"
    unfolding r using same_slice_length [OF pos] by (simp add: length_convolve_full)
  show "r ! i = convolve_full a v ! (i + (min (length a) (length v) - 1) div 2)"
    if "i < max (length a) (length v)" for i
    unfolding r using that le by (simp add: length_convolve_full add.commute)
qed

lemma np_convolve_same_returns:
  "a \<noteq> [] \<Longrightarrow> v \<noteq> [] \<Longrightarrow> \<exists>r. np_convolve_same a v = Inr r"
  by (simp add: np_convolve_same_def)

lemma length_np_diff_real: "length (np_diff_real xs) = length xs - 1"
  by (simp add: np_diff_real_def)

lemma enhance_Inr:
  assumes "enhance filtered fs = Inr integrated"
  shows "0 < py_int (0.15 * fs)" "2 \<le> length filtered"
    and "length integrated = max (length filtered - 1) (nat (py_int (0.15 * fs)))"
    and "np_convolve_same (map (\<lambda>d. d ^ 2) (np_diff_real filtered))
           (replicate (nat (py_int (0.15 * fs))) (1 / real_of_int (py_int (0.15 * fs)))) =
         Inr integrated"
proof -
  let ?w = "py_int (0.15 * fs)"
  let ?sq = "map (\<lambda>d. d ^ 2) (np_diff_real filtered)"
  from assms have w0: "\<not> ?w < 0"
    by (auto simp: enhance_def Let_def split: if_splits)
  with assms show c: "np_convolve_same ?sq (replicate (nat ?w) (1 / real_of_int ?w)) = Inr integrated"
    by (simp add: enhance_def Let_def)
  note cs = np_convolve_same_Inr(1-3) [OF c]
  from cs(2) w0 show "0 < ?w"
    by simp
  have "0 < length (np_diff_real filtered)"
    using cs(1) by simp
  then show "2 \<le> length filtered"
    by (simp add: length_np_diff_real)
  from cs(3) show "length integrated = max (length filtered - 1) (nat ?w)"
    by (simp add: length_np_diff_real)
qed

lemma enhance_returns:
  assumes "0 < py_int (0.15 * fs)" "2 \<le> length filtered"
  shows "\<exists>integrated. enhance filtered fs = Inr integrated"
proof -
  have "map (\<lambda>d. d ^ 2) (np_diff_real filtered) \<noteq> []"
  proof
    assume "map (\<lambda>d. d ^ 2) (np_diff_real filtered) = []"
    then have "length (np_diff_real filtered) = 0"
      by simp
    with assms(2) show False
      by (simp add: length_np_diff_real)
  qed
  moreover have "replicate (nat (py_int (0.15 * fs))) (1 / real_of_int (py_int (0.15 * fs))) \<noteq> []"
    using assms(1) by simp
  ultimately show ?thesis
    using assms(1) np_convolve_same_returns by (simp add: enhance_def Let_def)
qed

lemma half_split: "0 < w \<Longrightarrow> (w - 1) div 2 + w div 2 = w - (1 :: nat)"
  by presburger

lemma window_sum_gen:
  fixes c :: nat
  assumes oc: "o' + c + 1 = w" and "length sq = n"
  shows "(\<Sum>m\<leftarrow>[0..<n]. if m \<le> i + o' \<and> i + o' - m < w then sq ! m else 0) =
         (\<Sum>k\<leftarrow>[0..<w]. zero_padded sq (int i + int k - int c))"
proof -
  let ?P = "\<lambda>m. m \<le> i + o' \<and> i + o' - m < w"
  let ?Q = "\<lambda>k. 0 \<le> int i + int k - int c \<and> int i + int k - int c < int n"
  have "(\<Sum>m\<leftarrow>[0..<n]. if ?P m then sq ! m else 0) = (\<Sum>m\<in>{0..<n}. if ?P m then sq ! m else 0)"
    by (simp add: interv_sum_list_conv_sum_set_nat)
  also have "\<dots> = (\<Sum>m\<in>{m \<in> {0..<n}. ?P m}. sq ! m)"
    by (rule sum.inter_filter [symmetric]) simp
  also have "\<dots> = (\<Sum>k\<in>{k \<in> {0..<w}. ?Q k}. sq ! nat (int i + int k - int c))"
  proof (rule sum.reindex_bij_witness [where i = "\<lambda>k. nat (int i + int k - int c)"
        and j = "\<lambda>m. m + c - i"])
    fix m assume "m \<in> {m \<in> {0..<n}. ?P m}"
    then have m: "m < n" "m \<le> i + o'" "i + o' - m < w" by simp_all
    then have ge: "i \<le> m + c" using oc by linarith
    show "nat (int i + int (m + c - i) - int c) = m"
      using ge by simp
    have "m + c - i < w" "0 \<le> int i + int (m + c - i) - int c"
      "int i + int (m + c - i) - int c < int n"
      using m ge oc by linarith+
    then show "m + c - i \<in> {k \<in> {0..<w}. ?Q k}"
      by simp
    show "sq ! nat (int i + int (m + c - i) - int c) = sq ! m"
      using ge by simp
  next
    fix k assume "k \<in> {k \<in> {0..<w}. ?Q k}"
    then have k: "k < w" "c \<le> i + k" "i + k - c < n" by auto
    show "nat (int i + int k - int c) + c - i = k"
      using k by simp
    have "nat (int i + int k - int c) = i + k - c"
      using k by linarith
    moreover have "i + k - c < n" "i + k - c \<le> i + o'" "i + o' - (i + k - c) < w"
      using k oc by linarith+
    ultimately show "nat (int i + int k - int c) \<in> {m \<in> {0..<n}. ?P m}"
      by simp
  qed
  also have "\<dots> = (\<Sum>k\<in>{0..<w}. if ?Q k then sq ! nat (int i + int k - int c) else 0)"
    by (rule sum.inter_filter) simp
  also have "\<dots> = (\<Sum>k\<in>{0..<w}. zero_padded sq (int i + int k - int c))"
    by (rule sum.cong) (simp_all add: zero_padded_def assms(2))
  also have "\<dots> = (\<Sum>k\<leftarrow>[0..<w]. zero_padded sq (int i + int k - int c))"
    by (simp add: interv_sum_list_conv_sum_set_nat)
  finally show ?thesis .
qed

lemma window_sum:
  assumes "0 < w" "length sq = n"
  shows "(\<Sum>m\<leftarrow>[0..<n]. if m \<le> i + (w - 1) div 2 \<and> i + (w - 1) div 2 - m < w then sq ! m else 0) =
         (\<Sum>k\<leftarrow>[0..<w]. zero_padded sq (int i + int k - int (w div 2)))"
proof (rule window_sum_gen [OF _ assms(2)])
  show "(w - 1) div 2 + w div 2 + 1 = w"
    using half_split [OF assms(1)] assms(1) by simp
qed

lemma convolve_full_box:
  assumes "n' < length sq + w - 1"
  shows "convolve_full sq (replicate w c) ! n' =
           (\<Sum>m\<leftarrow>[0..<length sq]. if m \<le> n' \<and> n' - m < w then sq ! m else 0) * c"
proof -
  have "convolve_full sq (replicate w c) ! n' =
          (\<Sum>m\<leftarrow>[0..<length sq]. if m \<le> n' \<and> n' - m < w
             then sq ! m * replicate w c ! (n' - m) else 0)"
    using assms by (subst convolve_full_nth) simp_all
  also have "\<dots> = (\<Sum>m\<leftarrow>[0..<length sq]. (if m \<le> n' \<and> n' - m < w then sq ! m else 0) * c)"
    by (rule arg_cong [where f = sum_list], rule map_cong) simp_all
  also have "\<dots> = (\<Sum>m\<leftarrow>[0..<length sq]. if m \<le> n' \<and> n' - m < w then sq ! m else 0) * c"
    by (simp add: sum_list_mult_const)
  finally show ?thesis .
qed

lemma same_box_is_moving_average:
  assumes "np_convolve_same sq (replicate w (1 / real w)) = Inr integrated"
    and "w \<le> length sq"
  shows "integrated = moving_average w sq"
proof (rule nth_equalityI)
  note c = np_convolve_same_Inr [OF assms(1)]
  have w: "0 < w"
    using c(2) by simp
  show len: "length integrated = length (moving_average w sq)"
    using c(3) assms(2) by (simp add: moving_average_def)
  fix i assume "i < length integrated"
  then have i: "i < length sq"
    using len by (simp add: moving_average_def)
  have "min (length sq) w = w"
    using assms(2) by simp
  then have "integrated ! i = convolve_full sq (replicate w (1 / real w)) ! (i + (w - 1) div 2)"
    using c(4) [of i] i by simp
  also have "\<dots> =
      (\<Sum>m\<leftarrow>[0..<length sq]. if m \<le> i + (w - 1) div 2 \<and> i + (w - 1) div 2 - m < w
         then sq ! m else 0) * (1 / real w)"
    using i w by (intro convolve_full_box) linarith
  also have "\<dots> = (\<Sum>k\<leftarrow>[0..<w]. zero_padded sq (int i + int k - int (w div 2))) / real w"
    by (subst window_sum [OF w refl]) simp
  also have "\<dots> = moving_average w sq ! i"
    using i by (simp add: moving_average_def)
  finally show "integrated ! i = moving_average w sq ! i" .
qed

lemma moving_window_integration:
  assumes "enhance filtered fs = Inr integrated"
    and "nat (py_int (0.15 * fs)) \<le> length (np_diff_real filtered)"
  shows "integrated =
           moving_average (nat (py_int (0.15 * fs))) (map (\<lambda>d. d ^ 2) (np_diff_real filtered))"
proof -
  note e = enhance_Inr [OF assms(1)]
  have rw: "real_of_int (py_int (0.15 * fs)) = real (nat (py_int (0.15 * fs)))"
    using e(1) by simp
  have "np_convolve_same (map (\<lambda>d. d ^ 2) (np_diff_real filtered))
      (replicate (nat (py_int (0.15 * fs))) (1 / real (nat (py_int (0.15 * fs))))) = Inr integrated"
    using e(4) by (simp only: rw)
  then show ?thesis
    by (rule same_box_is_moving_average) (use assms(2) in simp)
qed

subsection \<open>Scaling the signal\<close>

lemma np_diff_real_scale: "np_diff_real (map ((*) c) xs) = map ((*) c) (np_diff_real xs)"
  by (auto simp add: np_diff_real_def map_tl [symmetric] zip_map_map right_diff_distrib
            simp del: map_tl)

lemma squared_scale:
  "map (\<lambda>d. d ^ 2) (map ((*) c) ds) = map ((*) (c ^ 2)) (map (\<lambda>d. d ^ 2) (ds :: real list))"
  by (auto simp add: power_mult_distrib)

lemma convolve_full_scale:
  "convolve_full (map ((*) k) a) v = map ((*) k) (convolve_full a v)"
proof -
  have "(\<Sum>m\<leftarrow>[0..<length a]. if m \<le> n \<and> n - m < length v
            then map ((*) k) a ! m * v ! (n - m) else 0) =
        k * (\<Sum>m\<leftarrow>[0..<length a]. if m \<le> n \<and> n - m < length v
            then a ! m * v ! (n - m) else 0)" for n
  proof -
    have "(\<Sum>m\<leftarrow>[0..<length a]. if m \<le> n \<and> n - m < length v
            then map ((*) k) a ! m * v ! (n - m) else 0) =
          (\<Sum>m\<leftarrow>[0..<length a]. k * (if m \<le> n \<and> n - m < length v
            then a ! m * v ! (n - m) else 0))"
      by (rule arg_cong [where f = sum_list], rule map_cong) simp_all
    then show ?thesis
      by (simp only: sum_list_const_mult)
  qed
  then show ?thesis
    by (simp add: convolve_full_def)
qed

lemma np_convolve_same_scale:
  "np_convolve_same (map ((*) k) a) v = map_sum id (map ((*) k)) (np_convolve_same a v)"
  by (simp add: np_convolve_same_def convolve_full_scale take_map drop_map)

lemma enhance_scale:
  "enhance (map ((*) c) filtered) fs = map_sum id (map ((*) (c ^ 2))) (enhance filtered fs)"
  by (simp add: enhance_def Let_def np_diff_real_scale squared_scale np_convolve_same_scale
           del: map_map)

lemma np_max_scale:
  assumes "0 < k"
  shows "np_max (map ((*) k) xs) = map_sum id ((*) k) (np_max xs)"
proof (cases "xs = []")
  case True
  then show ?thesis by (simp add: np_max_def)
next
  case False
  have "mono ((*) k)"
    using assms by (simp add: mono_def)
  then have "k * Max (set xs) = Max ((*) k ` set xs)"
    using False by (intro mono_Max_commute) simp_all
  with False show ?thesis
    by (simp add: np_max_def)
qed

lemma look_ahead_cong:
  assumes "length y = length x"
    and "\<And>a b. a < length x \<Longrightarrow> b < length x \<Longrightarrow> (y ! a = y ! b) = (x ! a = x ! b)"
    and "i < length x"
  shows "look_ahead y i k = look_ahead x i k"
  using assms
proof (induction x i k rule: look_ahead.induct)
  case (1 x i k)
  show ?case
  proof (cases "k < length x - 1 \<and> x ! k = x ! i")
    case True
    then have "k < length x"
      by auto
    from "1.prems"(2) [OF this "1.prems"(3)] True "1.prems"(1)
    have c: "k < length y - 1 \<and> y ! k = y ! i"
      by simp
    have "look_ahead y i k = look_ahead y i (k + 1)"
      using c by (subst look_ahead.simps) simp
    also have "\<dots> = look_ahead x i (k + 1)"
      using "1.prems" by (intro "1.IH" [OF True]) simp_all
    also have "\<dots> = look_ahead x i k"
      using True by (subst (2) look_ahead.simps) simp
    finally show ?thesis .
  next
    case False
    have "y ! k = y ! i \<longleftrightarrow> x ! k = x ! i" if "k < length x - 1"
      using "1.prems"(2) [of k i] that "1.prems"(3) by simp
    with False "1.prems"(1) have c: "\<not> (k < length y - 1 \<and> y ! k = y ! i)"
      by auto
    have "look_ahead y i k = k"
      using c by (subst look_ahead.simps) auto
    moreover have "look_ahead x i k = k"
      using False by (subst look_ahead.simps) auto
    ultimately show ?thesis by simp
  qed
qed

lemma local_maxima_from_cong:
  assumes "length y = length x"
    and "\<And>a b. a < length x \<Longrightarrow> b < length x \<Longrightarrow> (y ! a = y ! b) = (x ! a = x ! b)"
    and "\<And>a b. a < length x \<Longrightarrow> b < length x \<Longrightarrow> (y ! a < y ! b) = (x ! a < x ! b)"
  shows "local_maxima_from y i = local_maxima_from x i"
  using assms
proof (induction x i rule: local_maxima_from.induct)
  case (1 x i)
  let ?a = "look_ahead x i (i + 1)"
  show ?case
  proof (cases "i < length x - 1")
    case False
    then show ?thesis
      using "1.prems"(1) by (simp add: lm_stop)
  next
    case True
    then have iy: "i < length y - 1" and il: "i < length x" "i - 1 < length x"
      using "1.prems"(1) by simp_all
    have la: "look_ahead y i (i + 1) = ?a"
      using "1.prems"(1,2) il(1) by (rule look_ahead_cong)
    have "?a \<le> length x - 1"
      using True by (intro look_ahead_le) simp
    then have al: "?a < length x"
      using True by simp
    have c1: "(y ! (i - 1) < y ! i) = (x ! (i - 1) < x ! i)"
      using "1.prems"(3) il by simp
    have c2: "(y ! ?a < y ! i) = (x ! ?a < x ! i)"
      using "1.prems"(3) il al by simp
    consider (peak) "x ! (i - 1) < x ! i" "x ! ?a < x ! i"
      | (nopeak) "x ! (i - 1) < x ! i" "\<not> x ! ?a < x ! i"
      | (flat) "\<not> x ! (i - 1) < x ! i"
      by blast
    then show ?thesis
    proof cases
      case peak
      have "local_maxima_from y i =
              ((i + (?a - 1)) div 2) # local_maxima_from y (?a + 1)"
        using lm_peak [of i y] iy peak c1 c2 la by simp
      moreover have "local_maxima_from y (?a + 1) = local_maxima_from x (?a + 1)"
        using "1.prems" by (intro "1.IH"(1) [OF True peak(1) refl peak(2)]) simp_all
      ultimately show ?thesis
        using lm_peak [OF True peak] by simp
    next
      case nopeak
      have "local_maxima_from y i = local_maxima_from y (i + 1)"
        using lm_nopeak [of i y] iy nopeak c1 c2 la by simp
      moreover have "local_maxima_from y (i + 1) = local_maxima_from x (i + 1)"
        using "1.prems" by (intro "1.IH"(2) [OF True nopeak(1) refl nopeak(2)]) simp_all
      ultimately show ?thesis
        using lm_nopeak [OF True nopeak] by simp
    next
      case flat
      have "local_maxima_from y i = local_maxima_from y (i + 1)"
        using lm_flat [of i y] iy flat c1 by simp
      moreover have "local_maxima_from y (i + 1) = local_maxima_from x (i + 1)"
        using "1.prems" by (intro "1.IH"(3) [OF True flat]) simp_all
      ultimately show ?thesis
        using lm_flat [OF True flat] by simp
    qed
  qed
qed

lemma local_maxima_1d_scale:
  assumes "0 < k"
  shows "local_maxima_1d (map ((*) k) x) = local_maxima_1d x"
  unfolding local_maxima_1d_def
  by (rule local_maxima_from_cong) (use assms in simp_all)

lemma insort_key_cong_le:
  assumes "\<forall>y\<in>set ys. (f x \<le> f y) = (g x \<le> g y)"
  shows "insort_key f x ys = insort_key g x ys"
  using assms by (induction ys) simp_all

lemma sort_key_cong_le:
  assumes "\<forall>a\<in>set xs. \<forall>b\<in>set xs. (f a \<le> f b) = (g a \<le> g b)"
  shows "sort_key f xs = sort_key g xs"
  using assms
proof (induction xs)
  case Nil
  then show ?case by simp
next
  case (Cons x xs)
  have ih: "sort_key f xs = sort_key g xs"
    using Cons by simp
  have "insort_key f x (sort_key g xs) = insort_key g x (sort_key g xs)"
    using Cons.prems by (intro insort_key_cong_le) simp
  with ih show ?case
    by (simp add: sort_key_simps)
qed

lemma argsort_scale:
  assumes "0 < (k :: real)"
  shows "argsort (map ((*) k) priority) = argsort priority"
  unfolding argsort_def using assms
  by (simp, intro sort_key_cong_le) simp

lemma find_peaks_scale:
  assumes "0 < k"
  shows "find_peaks (map ((*) k) x) (k * h) d = find_peaks x h d"
proof -
  have inr: "p < length x" if "p \<in> set (local_maxima_1d x)" for p
    using local_maxima_1d_props(2) [OF that] by auto
  have f: "filter (\<lambda>p. k * h \<le> map ((*) k) x ! p) (local_maxima_1d x) =
           filter (\<lambda>p. h \<le> x ! p) (local_maxima_1d x)"
    by (rule filter_cong) (use inr assms in simp_all)
  let ?peaks = "filter (\<lambda>p. h \<le> x ! p) (local_maxima_1d x)"
  have pr: "map (\<lambda>p. map ((*) k) x ! p) ?peaks = map ((*) k) (map (\<lambda>p. x ! p) ?peaks)"
    using inr by simp
  have "select_by_peak_distance ?peaks (map (\<lambda>p. map ((*) k) x ! p) ?peaks) d =
        select_by_peak_distance ?peaks (map (\<lambda>p. x ! p) ?peaks) d"
    unfolding pr select_by_peak_distance_def by (simp only: argsort_scale [OF assms])
  then show ?thesis
    by (simp add: find_peaks_def Let_def local_maxima_1d_scale [OF assms] f)
qed

lemma threshold_peaks_scale:
  assumes "0 < k"
  shows "threshold_peaks (map ((*) k) integrated) fs tf = threshold_peaks integrated fs tf"
proof (cases "np_max integrated")
  case (Inl e)
  then show ?thesis
    by (simp add: threshold_peaks_def np_max_scale [OF assms])
next
  case (Inr m)
  have "find_peaks (map ((*) k) integrated) (tf * (k * m)) (py_int (0.6 * fs)) =
        find_peaks (map ((*) k) integrated) (k * (tf * m)) (py_int (0.6 * fs))"
    by (simp add: mult.left_commute)
  with Inr show ?thesis
    by (simp add: threshold_peaks_def np_max_scale [OF assms] find_peaks_scale [OF assms])
qed

subsection \<open>Constant signals\<close>









subsection \<open>The example filter\<close>

lemma passthrough_length: "passthrough ba x = Inr y \<Longrightarrow> length y = length x"
  by (auto simp: passthrough_def split: if_splits)

lemma passthrough_scale: "passthrough ba (map ((*) c) x) = map_sum id (map ((*) c)) (passthrough ba x)"
  by (simp add: passthrough_def)

subsection \<open>Detection: the claims\<close>




text \<open>
  Claim C6: a band that does not satisfy \<open>0 < low < high < fs / 2\<close> makes the design of
  the filter fail with \<open>InvalidBandError\<close>; the band of \<open>detect_r_peaks\<close> is 5 to 15 Hz,
  so the detector fails that way for every \<open>fs \<le> 30\<close>, whatever the signal.
\<close>

theorem invalid_band_fails:
  "(\<not> (0 < low \<and> low < high \<and> high < fs / 2) \<longrightarrow>
      butter N (low, high) fs = Inl InvalidBandError) \<and>
   (fs \<le> 30 \<longrightarrow> detect_r_peaks filtfilt ecg fs threshold_factor = Inl InvalidBandError)"
  by (auto simp: butter_def detect_r_peaks_def)

text \<open>Claim C6 at 30 Hz, where 15 Hz is the Nyquist frequency itself.\<close>

theorem invalid_band_fails_witness:
  "butter 2 (5, 15) 30 = Inl InvalidBandError \<and>
   detect_r_peaks passthrough ecg_two_bumps 30 (6 / 10) = Inl InvalidBandError"
  using invalid_band_fails [of 5 15 30 2 passthrough ecg_two_bumps "6 / 10"] by simp

text \<open>
  Claim C7 as the specification states it: the envelope is the moving average of window
  \<open>round(0.15 * fs)\<close> and has the length of the squared sequence. At 250 Hz the source's
  window is \<open>int(37.5) = 37\<close>, not 38, and the envelope of a pulse differs from the
  specification's; on 20 samples the squared sequence has 19 values and the envelope 37.
\<close>

theorem envelope_spec_counterexample:
  "enhance (pulse_signal 40) 250 \<noteq>
     Inr (envelope_spec (map (\<lambda>d. d ^ 2) (np_diff_real (pulse_signal 40))) 250) \<and>
   map_sum id length (enhance (pulse_signal 20) 250) = Inr 37 \<and>
   length (np_diff_real (pulse_signal 20)) = 19"
  by code_simp

text \<open>
  Claim C7, amended: on at least 2 filtered samples and a window
  \<open>w = int(0.15 * fs)\<close> of at least one sample the enhancer returns an envelope, of
  length \<open>max(len(squared), w)\<close>; when the window is no longer than the squared
  first-difference sequence, the envelope has the length of that sequence and is its
  moving average of window \<open>w\<close>, centered, the sequence padded with zeros at both ends.
\<close>

theorem moving_window_envelope:
  "(2 \<le> length filtered \<and> 0 < py_int (0.15 * fs) \<longrightarrow>
      (\<exists>integrated. enhance filtered fs = Inr integrated)) \<and>
   (enhance filtered fs = Inr integrated \<longrightarrow>
      length integrated = max (length (np_diff_real filtered)) (nat (py_int (0.15 * fs))) \<and>
      (nat (py_int (0.15 * fs)) \<le> length (np_diff_real filtered) \<longrightarrow>
         length integrated = length (np_diff_real filtered) \<and>
         integrated =
           moving_average (nat (py_int (0.15 * fs)))
             (map (\<lambda>d. d ^ 2) (np_diff_real filtered))))"
proof (intro conjI impI)
  assume "2 \<le> length filtered \<and> 0 < py_int (0.15 * fs)"
  then show "\<exists>integrated. enhance filtered fs = Inr integrated"
    using enhance_returns by blast
next
  assume e: "enhance filtered fs = Inr integrated"
  show l: "length integrated =
             max (length (np_diff_real filtered)) (nat (py_int (0.15 * fs)))"
    using enhance_Inr(3) [OF e] by (simp add: length_np_diff_real)
  assume w: "nat (py_int (0.15 * fs)) \<le> length (np_diff_real filtered)"
  with l show "length integrated = length (np_diff_real filtered)"
    by simp
  from e w show "integrated =
      moving_average (nat (py_int (0.15 * fs))) (map (\<lambda>d. d ^ 2) (np_diff_real filtered))"
    by (rule moving_window_integration)
qed

text \<open>The amended claim C7 on the two bumps at 36 Hz (window 5, 29 squared values).\<close>

theorem moving_window_envelope_witness:
  "2 \<le> length ecg_two_bumps \<and> 0 < py_int (0.15 * 36) \<and>
   nat (py_int (0.15 * 36)) \<le> length (np_diff_real ecg_two_bumps) \<and>
   (\<exists>integrated. enhance ecg_two_bumps 36 = Inr integrated \<and>
      length integrated = length (np_diff_real ecg_two_bumps) \<and>
      integrated =
        moving_average (nat (py_int (0.15 * 36))) (map (\<lambda>d. d ^ 2) (np_diff_real ecg_two_bumps)))"
proof -
  have h: "2 \<le> length ecg_two_bumps \<and> 0 < py_int (0.15 * 36)"
    by code_simp
  have w: "nat (py_int (0.15 * 36)) \<le> length (np_diff_real ecg_two_bumps)"
    by code_simp
  obtain integrated where e: "enhance ecg_two_bumps 36 = Inr integrated"
    using moving_window_envelope [of ecg_two_bumps 36] h by blast
  from moving_window_envelope [of ecg_two_bumps 36 integrated] e w h show ?thesis
    by blast
qed



text \<open>
  Claim C9 as stated: every returned index is below \<open>len(ecg) - 1\<close>. When the window is
  longer than the signal, numpy's \<^verbatim>\<open>mode='same'\<close> gives the envelope the length of the
  window: at 360 Hz (window 54) a signal of 16 samples has an envelope of 54 values,
  and index 26 is returned.
\<close>

theorem peak_index_counterexample:
  "detect_r_peaks passthrough ecg_short 360 (6 / 10) = Inr [26] \<and>
   \<not> 26 < length ecg_short - 1"
  by code_simp

text \<open>
  Claim C9, amended: when the window \<open>int(0.15 * fs)\<close> is at most \<open>len(ecg) - 1\<close> and
  the filter returns as many samples as it is given, every index returned by
  \<open>detect_r_peaks\<close> is below \<open>len(ecg) - 1\<close> (indices are natural numbers).
\<close>

theorem peak_index_in_range:
  assumes "detect_r_peaks filtfilt ecg fs threshold_factor = Inr peaks"
    and "\<forall>ba filtered. filtfilt ba ecg = Inr filtered \<longrightarrow> length filtered = length ecg"
    and "py_int (0.15 * fs) \<le> int (length ecg) - 1"
    and "p \<in> set peaks"
  shows "p < length ecg - 1"
proof -
  obtain ba filtered integrated h where
    f: "filtfilt ba ecg = Inr filtered"
    and e: "enhance filtered fs = Inr integrated"
    and fp: "find_peaks integrated h (py_int (0.6 * fs)) = Inr peaks"
    using detect_r_peaks_stages [OF assms(1)] by blast
  have len: "length filtered = length ecg"
    using assms(2) f by blast
  have "length integrated = max (length ecg - 1) (nat (py_int (0.15 * fs)))"
    using enhance_Inr(3) [OF e] len by simp
  moreover have "nat (py_int (0.15 * fs)) \<le> length ecg - 1"
    using assms(3) by linarith
  ultimately have li: "length integrated = length ecg - 1"
    by simp
  have "p \<in> set (local_maxima_1d integrated)"
    using find_peaks_props(2) [OF fp] assms(4) by blast
  from local_maxima_1d_props(2) [OF this] li show ?thesis
    by auto
qed

text \<open>The amended claim C9 on the two bumps at 36 Hz.\<close>

theorem peak_index_in_range_witness:
  "detect_r_peaks passthrough ecg_two_bumps 36 (6 / 10) = Inr [3, 24] \<and>
   py_int (0.15 * 36) \<le> int (length ecg_two_bumps) - 1 \<and>
   (3 :: nat) < length ecg_two_bumps - 1 \<and> (24 :: nat) < length ecg_two_bumps - 1"
proof -
  have e: "detect_r_peaks passthrough ecg_two_bumps 36 (6 / 10) = Inr [3, 24]"
    by code_simp
  have w: "py_int (0.15 * 36) \<le> int (length ecg_two_bumps) - 1"
    by code_simp
  have l: "\<forall>ba filtered. passthrough ba ecg_two_bumps = Inr filtered \<longrightarrow>
             length filtered = length ecg_two_bumps"
    using passthrough_length by blast
  have "3 < length ecg_two_bumps - 1"
    by (rule peak_index_in_range [OF e l w]) simp
  moreover have "24 < length ecg_two_bumps - 1"
    by (rule peak_index_in_range [OF e l w]) simp
  ultimately show ?thesis
    using e w by simp
qed

text \<open>
  Claim C10: for every positive factor \<open>c\<close>, \<open>detect_r_peaks\<close> returns on \<open>c * ecg\<close>
  what it returns on \<open>ecg\<close>, an error included, when the filter is homogeneous at this
  signal: filtering \<open>c * ecg\<close> gives \<open>c\<close> times the filtered \<open>ecg\<close>. The arithmetic
  is exact.
\<close>

theorem scale_invariance:
  assumes "0 < c"
    and "\<forall>ba. filtfilt ba (map ((*) c) ecg) = map_sum id (map ((*) c)) (filtfilt ba ecg)"
  shows "detect_r_peaks filtfilt (map ((*) c) ecg) fs threshold_factor =
         detect_r_peaks filtfilt ecg fs threshold_factor"
proof (cases "butter 2 (5, 15) fs")
  case (Inl e)
  then show ?thesis
    by (simp add: detect_r_peaks_def)
next
  case ba: (Inr ba)
  have fa: "filtfilt ba (map ((*) c) ecg) = map_sum id (map ((*) c)) (filtfilt ba ecg)"
    using assms(2) by blast
  show ?thesis
  proof (cases "filtfilt ba ecg")
    case (Inl e)
    with ba fa show ?thesis
      by (simp add: detect_r_peaks_def)
  next
    case f: (Inr filtered)
    have fs: "filtfilt ba (map ((*) c) ecg) = Inr (map ((*) c) filtered)"
      using fa f by simp
    have k: "0 < c ^ 2"
      using assms(1) by simp
    show ?thesis
    proof (cases "enhance filtered fs")
      case (Inl e)
      with ba f fs show ?thesis
        by (simp add: detect_r_peaks_def enhance_scale)
    next
      case (Inr integrated)
      with ba f fs show ?thesis
        by (simp add: detect_r_peaks_def enhance_scale threshold_peaks_scale [OF k])
    qed
  qed
qed

text \<open>Claim C10 on the two bumps at 36 Hz, doubled.\<close>

theorem scale_invariance_witness:
  "(0 :: real) < 2 \<and>
   detect_r_peaks passthrough (map ((*) 2) ecg_two_bumps) 36 (6 / 10) =
   detect_r_peaks passthrough ecg_two_bumps 36 (6 / 10)"
  using scale_invariance [of 2 passthrough ecg_two_bumps 36 "6 / 10"] passthrough_scale
  by simp

end
